theory Spec2Isabelle
  imports Complex_Main "HOL-Library.Multiset"
begin

section \<open>Shared value domains\<close>

text \<open>
  Python exceptions that the modelled code can raise. \<open>HTTPError\<close> stands for any
  exception of the HTTP client, \<open>IOError\<close> for a failed image download or file write.
\<close>

datatype py_error = ValueError | ZeroDivisionError | OverflowError | HTTPError | IOError

text \<open>
  An IEEE double, as a Python \<open>float\<close> and a numpy \<open>float64\<close> hold it: a finite value,
  negative zero, one of the two infinities, or not-a-number. \<open>Fin 0\<close> is \<open>+0.0\<close>. The
  model keeps the range of the format and the sign of zero: a result whose magnitude
  reaches \<open>float_limit\<close> (the point from which round-to-nearest gives an infinity) is an
  infinity. It does not model the rounding of a result inside the range, nor underflow.
\<close>

datatype npfloat = Fin real | NegZero | PInf | NInf | NaN

definition float_limit :: real where
  "float_limit = 2 ^ 1024 - 2 ^ 970"

definition fl :: "real \<Rightarrow> npfloat" where
  "fl r = (if float_limit \<le> r then PInf else if r \<le> - float_limit then NInf else Fin r)"

fun np_isfinite :: "npfloat \<Rightarrow> bool" where
  "np_isfinite (Fin x) = True"
| "np_isfinite NegZero = True"
| "np_isfinite PInf = False"
| "np_isfinite NInf = False"
| "np_isfinite NaN = False"

fun is_zero :: "npfloat \<Rightarrow> bool" where
  "is_zero (Fin x) = (x = 0)"
| "is_zero NegZero = True"
| "is_zero v = False"

fun is_inf :: "npfloat \<Rightarrow> bool" where
  "is_inf PInf = True"
| "is_inf NInf = True"
| "is_inf v = False"

text \<open>The sign bit.\<close>

fun is_neg :: "npfloat \<Rightarrow> bool" where
  "is_neg (Fin x) = (x < 0)"
| "is_neg NegZero = True"
| "is_neg NInf = True"
| "is_neg v = False"

fun real_of :: "npfloat \<Rightarrow> real" where
  "real_of (Fin x) = x"
| "real_of v = 0"

text \<open>\<open>v < 0\<close>: false for either zero and for nan.\<close>

fun np_lt0 :: "npfloat \<Rightarrow> bool" where
  "np_lt0 (Fin x) = (x < 0)"
| "np_lt0 NInf = True"
| "np_lt0 v = False"

fun np_neg :: "npfloat \<Rightarrow> npfloat" where
  "np_neg (Fin x) = (if x = 0 then NegZero else Fin (- x))"
| "np_neg NegZero = Fin 0"
| "np_neg PInf = NInf"
| "np_neg NInf = PInf"
| "np_neg NaN = NaN"

text \<open>
  Addition, multiplication and division as numpy performs them: none of them raises;
  an invalid operation gives nan, a division of a non-zero by zero an infinity.
\<close>

definition np_add :: "npfloat \<Rightarrow> npfloat \<Rightarrow> npfloat" where
  "np_add a b =
     (if a = NaN \<or> b = NaN then NaN
      else if (a = PInf \<and> b = NInf) \<or> (a = NInf \<and> b = PInf) then NaN
      else if is_inf a then a
      else if is_inf b then b
      else if a = NegZero then b
      else if b = NegZero then a
      else if real_of a + real_of b = 0 then Fin 0
      else fl (real_of a + real_of b))"

definition np_mul :: "npfloat \<Rightarrow> npfloat \<Rightarrow> npfloat" where
  "np_mul a b =
     (if a = NaN \<or> b = NaN then NaN
      else if (is_zero a \<and> is_inf b) \<or> (is_inf a \<and> is_zero b) then NaN
      else if is_inf a \<or> is_inf b then (if is_neg a \<noteq> is_neg b then NInf else PInf)
      else if is_zero a \<or> is_zero b then (if is_neg a \<noteq> is_neg b then NegZero else Fin 0)
      else fl (real_of a * real_of b))"

definition np_div :: "npfloat \<Rightarrow> npfloat \<Rightarrow> npfloat" where
  "np_div a b =
     (if a = NaN \<or> b = NaN then NaN
      else if (is_inf a \<and> is_inf b) \<or> (is_zero a \<and> is_zero b) then NaN
      else if is_inf a \<or> is_zero b then (if is_neg a \<noteq> is_neg b then NInf else PInf)
      else if is_inf b \<or> is_zero a then (if is_neg a \<noteq> is_neg b then NegZero else Fin 0)
      else fl (real_of a / real_of b))"

fun np_sqrt :: "npfloat \<Rightarrow> npfloat" where
  "np_sqrt (Fin x) = (if x < 0 then NaN else Fin (sqrt x))"
| "np_sqrt NegZero = NegZero"
| "np_sqrt PInf = PInf"
| "np_sqrt NInf = NaN"
| "np_sqrt NaN = NaN"

fun np_log :: "npfloat \<Rightarrow> npfloat" where
  "np_log (Fin x) = (if 0 < x then Fin (ln x) else if x = 0 then NInf else NaN)"
| "np_log NegZero = NInf"
| "np_log PInf = PInf"
| "np_log NInf = NaN"
| "np_log NaN = NaN"

text \<open>
  \<open>np.sum\<close> of a one-dimensional array, summed from the right; the sum of the empty array
  is \<open>0.0\<close>, the sum of a single element is that element.
\<close>

fun np_sum :: "npfloat list \<Rightarrow> npfloat" where
  "np_sum [] = Fin 0"
| "np_sum [a] = a"
| "np_sum (a # b # rest) = np_add a (np_sum (b # rest))"

text \<open>
  Element-wise subtraction of two one-dimensional arrays with numpy's broadcasting:
  equal lengths pair up, an array of length one is stretched, anything else raises.
  \<open>u - v\<close> is \<open>u + (-v)\<close>.
\<close>

definition np_sub :: "npfloat list \<Rightarrow> npfloat list \<Rightarrow> py_error + npfloat list" where
  "np_sub a b =
     (if length a = length b then Inr (map2 (\<lambda>u v. np_add u (np_neg v)) a b)
      else if length a = 1 then Inr (map (\<lambda>v. np_add (hd a) (np_neg v)) b)
      else if length b = 1 then Inr (map (\<lambda>u. np_add u (np_neg (hd b))) a)
      else Inl ValueError)"

text \<open>
  An element of a parameter vector: a Python \<open>float\<close> (a tuple or list of floats) or a
  numpy \<open>float64\<close> (a row of the sampler's array). The two differ in \<open>**\<close>: Python's
  raises \<open>OverflowError\<close> when the result of a finite base overflows, numpy's returns an
  infinity.
\<close>

datatype scalar = PyFloat npfloat | NpFloat npfloat

fun val :: "scalar \<Rightarrow> npfloat" where
  "val (PyFloat v) = v"
| "val (NpFloat v) = v"

text \<open>\<open>m**2\<close>\<close>

fun pow2 :: "scalar \<Rightarrow> py_error + npfloat" where
  "pow2 (NpFloat v) = Inr (np_mul v v)"
| "pow2 (PyFloat v) =
     (if np_isfinite v \<and> float_limit \<le> real_of v * real_of v then Inl OverflowError
      else Inr (np_mul v v))"

section \<open>Model fitting notebook: the log-probability handed to the ensemble sampler\<close>

text \<open>\<open>def linear_func(x, m, b): return m*x+b\<close>, on an array \<open>x\<close>.\<close>

definition linear_func :: "npfloat list \<Rightarrow> npfloat \<Rightarrow> npfloat \<Rightarrow> npfloat list" where
  "linear_func x m b = map (\<lambda>xi. np_add (np_mul m xi) b) x"

text \<open>
  \<^verbatim>\<open>
  def lnprior(theta):
      b,m,sigma = theta
      if sigma < 0:
          return -np.inf
      return 1/(sigma*np.sqrt(1+m**2)**3)
  \<close>
  Unpacking a \<open>theta\<close> that does not hold exactly three numbers raises \<open>ValueError\<close>.
  \<open>np.sqrt\<close> returns a numpy scalar whatever it is given, so the cube, the product with
  \<open>sigma\<close> and the division are numpy's; only \<open>m**2\<close> is Python's when \<open>m\<close> is a Python
  float.
\<close>

definition lnprior :: "scalar list \<Rightarrow> py_error + npfloat" where
  "lnprior theta =
     (case theta of
        [b, m, sigma] \<Rightarrow>
          if np_lt0 (val sigma) then Inr NInf
          else (case pow2 m of
                  Inl e \<Rightarrow> Inl e
                | Inr m2 \<Rightarrow>
                    (let r = np_sqrt (np_add (Fin 1) m2)
                     in Inr (np_div (Fin 1) (np_mul (val sigma) (np_mul (np_mul r r) r)))))
      | _ \<Rightarrow> Inl ValueError)"

text \<open>
  \<^verbatim>\<open>
  def lnlike(theta, x, y):
      b,m,sigma = theta
      y_pred = linear_func(x,m,b)
      return -np.sum(2*np.log(sigma) + ((y - y_pred)/sigma)**2)
  \<close>
  \<open>x\<close> and \<open>y\<close> are numpy arrays, so every operation here is numpy's.
\<close>

definition lnlike :: "scalar list \<Rightarrow> npfloat list \<Rightarrow> npfloat list \<Rightarrow> py_error + npfloat" where
  "lnlike theta x y =
     (case theta of
        [b, m, sigma] \<Rightarrow>
          (case np_sub y (linear_func x (val m) (val b)) of
             Inl e \<Rightarrow> Inl e
           | Inr d \<Rightarrow>
               Inr (np_neg (np_sum (map (\<lambda>r.
                      np_add (np_mul (Fin 2) (np_log (val sigma)))
                             (let q = np_div r (val sigma) in np_mul q q)) d))))
      | _ \<Rightarrow> Inl ValueError)"

text \<open>
  \<^verbatim>\<open>
  def lnprob(theta, *args):
      p = lnprior(theta)
      if not np.isfinite(p):
          return -np.inf
      return p+lnlike(theta, *args)
  \<close>
  with \<open>args = (x, obs_linear_y)\<close>.
\<close>

definition lnprob :: "scalar list \<Rightarrow> npfloat list \<Rightarrow> npfloat list \<Rightarrow> py_error + npfloat" where
  "lnprob theta x y =
     (case lnprior theta of
        Inl e \<Rightarrow> Inl e
      | Inr p \<Rightarrow>
          if \<not> np_isfinite p then Inr NInf
          else (case lnlike theta x y of
                  Inl e \<Rightarrow> Inl e
                | Inr l \<Rightarrow> Inr (np_add p l)))"

text \<open>
  For the properties below: the values that are at least one, an infinity included, or
  nan; and the cube of the square root in \<open>lnprior\<close>, which is such a value whatever \<open>m\<close> is.
\<close>

definition ge1 :: "npfloat \<Rightarrow> bool" where
  "ge1 v \<longleftrightarrow> (\<exists>x. v = Fin x \<and> 1 \<le> x) \<or> v = PInf \<or> v = NaN"

definition denom :: "scalar \<Rightarrow> npfloat" where
  "denom m = (let r = np_sqrt (np_add (Fin 1) (np_mul (val m) (val m))) in np_mul (np_mul r r) r)"

section \<open>Parallel programming notebook: Monte Carlo area over message passing\<close>

text \<open>
  The random source is a collaborator: \<open>draw rank k\<close> is the pair of arrays
  \<open>np.random.uniform(-1, 1, size=k)\<close> that the process \<open>rank\<close> obtains for \<open>x\<close> and \<open>y\<close>.
\<close>

type_synonym sampler = "nat \<Rightarrow> nat \<Rightarrow> real list \<times> real list"

text \<open>\<open>np.sum(np.sqrt(x**2 + y**2)<1)\<close>\<close>

definition in_circle_count :: "real list \<Rightarrow> real list \<Rightarrow> int" where
  "in_circle_count x y =
     int (length (filter (\<lambda>(xi, yi). sqrt (xi ^ 2 + yi ^ 2) < 1) (zip x y)))"

text \<open>
  \<open>n_samples_per_task = n_samples // size\<close>: Python's floor division, which raises on a
  zero divisor (an MPI communicator always has \<open>size \<ge> 1\<close>; the model writes \<open>sz\<close> for \<open>size\<close>).
\<close>

definition n_samples_per_task :: "int \<Rightarrow> nat \<Rightarrow> py_error + int" where
  "n_samples_per_task n_samples sz =
     (if sz = 0 then Inl ZeroDivisionError else Inr (n_samples div int sz))"

text \<open>
  The local count of one process. \<open>np.random.uniform\<close> raises \<open>ValueError\<close> on a negative
  size.
\<close>

definition n_in_circle :: "sampler \<Rightarrow> int \<Rightarrow> nat \<Rightarrow> nat \<Rightarrow> py_error + int" where
  "n_in_circle draw n_samples sz rank =
     (case n_samples_per_task n_samples sz of
        Inl e \<Rightarrow> Inl e
      | Inr k \<Rightarrow>
          if k < 0 then Inl ValueError
          else Inr (case draw rank (nat k) of (x, y) \<Rightarrow> in_circle_count x y))"

text \<open>
  \<open>comm.reduce(v, root=0, op=MPI.SUM)\<close> as a collective over the contributions of all
  ranks, in rank order: the root receives the sum, every other rank receives \<open>None\<close>.
\<close>

definition comm_reduce_sum :: "int list \<Rightarrow> nat \<Rightarrow> int option" where
  "comm_reduce_sum vals rank = (if rank = 0 then Some (sum_list vals) else None)"

text \<open>The local variables of \<open>monte_carlo_area_reduce\<close> just before \<open>area\<close> is computed.\<close>

record mc_locals =
  per_task :: int
  draws_sum :: int
  n_in_circle_sum :: int

fun collect :: "('a \<Rightarrow> py_error + 'b) \<Rightarrow> 'a list \<Rightarrow> py_error + 'b list" where
  "collect f [] = Inr []"
| "collect f (a # as) =
     (case f a of
        Inl e \<Rightarrow> Inl e
      | Inr b \<Rightarrow> (case collect f as of Inl e \<Rightarrow> Inl e | Inr bs \<Rightarrow> Inr (b # bs)))"

text \<open>
  \<^verbatim>\<open>
      n_samples_per_task = n_samples // size
      x = np.random.uniform(-1, 1, size=n_samples_per_task)
      y = np.random.uniform(-1, 1, size=n_samples_per_task)
      n_in_circle = np.sum(np.sqrt(x**2 + y**2)<1)
      n_in_circle_sum = np.array([0])
      draws_sum = n_samples_per_task * size
      n_in_circle_sum = comm.reduce(n_in_circle, root=0, op=MPI.SUM)
      if n_in_circle_sum is None:
          n_in_circle_sum = 0
  \<close>
  The collective completes only if every rank reaches it.
\<close>

definition reduce_locals :: "sampler \<Rightarrow> int \<Rightarrow> nat \<Rightarrow> nat \<Rightarrow> py_error + mc_locals" where
  "reduce_locals draw n_samples sz rank =
     (case n_samples_per_task n_samples sz of
        Inl e \<Rightarrow> Inl e
      | Inr k \<Rightarrow>
          (case collect (n_in_circle draw n_samples sz) [0..<sz] of
             Inl e \<Rightarrow> Inl e
           | Inr counts \<Rightarrow>
               Inr \<lparr>per_task = k, draws_sum = k * int sz,
                    n_in_circle_sum =
                      (case comm_reduce_sum counts rank of None \<Rightarrow> 0 | Some v \<Rightarrow> v)\<rparr>))"

text \<open>
  \<open>area = 4 * n_in_circle_sum/draws_sum\<close> (true division). On the root the sum is a numpy
  integer, so the division is numpy's; on the other ranks both operands are Python
  integers and a zero \<open>draws_sum\<close> raises.
\<close>

definition monte_carlo_area_reduce :: "sampler \<Rightarrow> int \<Rightarrow> nat \<Rightarrow> nat \<Rightarrow> py_error + npfloat" where
  "monte_carlo_area_reduce draw n_samples sz rank =
     (case reduce_locals draw n_samples sz rank of
        Inl e \<Rightarrow> Inl e
      | Inr v \<Rightarrow>
          if rank = 0
          then Inr (np_div (Fin (real_of_int (4 * n_in_circle_sum v)))
                           (Fin (real_of_int (draws_sum v))))
          else if draws_sum v = 0 then Inl ZeroDivisionError
          else Inr (Fin (real_of_int (4 * n_in_circle_sum v) / real_of_int (draws_sum v))))"

text \<open>
  \<open>monte_carlo_area_sendrcv\<close>, the root's accumulation: it starts from its own count and
  adds the payload of each of the \<open>size - 1\<close> messages in the order they arrive
  (\<open>comm.recv()\<close> accepts any source). \<open>arrival\<close> lists the senders in that order.
  \<^verbatim>\<open>
      if rank==0:
          n_in_circle_sum = n_in_circle
          for i in range(size-1):
              temp = comm.recv()
              n_in_circle_sum += temp[0]
      else:
          comm.send([n_in_circle], 0)
  \<close>
\<close>

fun recv_loop :: "(nat \<Rightarrow> int) \<Rightarrow> nat list \<Rightarrow> int \<Rightarrow> int" where
  "recv_loop payload [] acc = acc"
| "recv_loop payload (src # rest) acc = recv_loop payload rest (acc + payload src)"

definition sendrcv_root_sum :: "(nat \<Rightarrow> int) \<Rightarrow> nat list \<Rightarrow> int" where
  "sendrcv_root_sum local_count arrival = recv_loop local_count arrival (local_count 0)"

text \<open>A sampler for concrete runs: every draw is the origin, which lies in the circle.\<close>

definition origin_draw :: sampler where
  "origin_draw rank k = (replicate k 0, replicate k 0)"

section \<open>Parallel programming notebook: the xkcd downloaders\<close>

subsection \<open>The collaborators: HTTP client and regular-expression searches\<close>

text \<open>
  The HTTP client and the file system are collaborators. \<open>get_page w i\<close> is the outcome of
  \<open>http.request('GET', "http://www.xkcd.com/"+str(i)+"/")\<close>: an exception, or the body
  of the response (a Python 2 byte string), which the request has read in full and keeps
  as \<open>rd.data\<close>. \<open>fetch_image w url\<close> is the outcome of streaming the image at \<open>url\<close>
  into its file: \<open>None\<close> when the file was written, the exception otherwise.
\<close>

record web =
  get_page :: "int \<Rightarrow> py_error + string"
  fetch_image :: "string \<Rightarrow> py_error option"

text \<open>
  \<open>rd.read()\<close> on the response of a request made without \<open>preload_content=False\<close>: the
  request has already consumed the stream into \<open>rd.data\<close>, so the read finds nothing
  left and returns the empty string, whatever the body was.
\<close>

definition rd_read :: "string \<Rightarrow> string" where
  "rd_read body = []"

text \<open>
  \<open>re.search("/comics/[a-z0-9_()]*.(jpg|png)", data)\<close>: the leftmost match, the star
  greedy with backtracking, the dot any character but a newline. The result is the
  matched text (\<open>res.group()\<close>), or \<open>None\<close>.
\<close>

definition comic_class :: "char \<Rightarrow> bool" where
  "comic_class c \<longleftrightarrow> c \<in> set ''abcdefghijklmnopqrstuvwxyz0123456789_()''"

definition suffix_ok :: "string \<Rightarrow> bool" where
  "suffix_ok s =
     (case s of
        [] \<Rightarrow> False
      | c # t \<Rightarrow> c \<noteq> CHR 0x0A \<and> (take 3 t = ''jpg'' \<or> take 3 t = ''png''))"

fun backtrack :: "string \<Rightarrow> nat \<Rightarrow> nat option" where
  "backtrack rest 0 = (if suffix_ok rest then Some 0 else None)"
| "backtrack rest (Suc k) =
     (if suffix_ok (drop (Suc k) rest) then Some (Suc k) else backtrack rest k)"

definition match_here :: "string \<Rightarrow> string option" where
  "match_here s =
     (if take 8 s = ''/comics/''
      then (let rest = drop 8 s in
            case backtrack rest (length (takeWhile comic_class rest)) of
              None \<Rightarrow> None
            | Some k \<Rightarrow> Some (''/comics/'' @ take (k + 4) rest))
      else None)"

fun re_search_comic :: "string \<Rightarrow> string option" where
  "re_search_comic [] = match_here []"
| "re_search_comic (c # s) =
     (case match_here (c # s) of Some m \<Rightarrow> Some m | None \<Rightarrow> re_search_comic s)"

text \<open>\<open>re.search("Not Found", data)\<close> as a truth value: \<open>data\<close> contains the literal text.\<close>

fun contains :: "string \<Rightarrow> string \<Rightarrow> bool" where
  "contains pat [] = (pat = [])"
| "contains pat (c # s) = (take (length pat) (c # s) = pat \<or> contains pat s)"

subsection \<open>The sequential downloader\<close>

text \<open>
  The requests issued, in order. \<open>GetPage i\<close> is the GET of the page of comic \<open>i\<close>,
  \<open>GetImage url\<close> the GET of an image.
\<close>

datatype request = GetPage int | GetImage string

text \<open>
  The state of \<open>download_xkcd\<close>: its local flag \<open>content\<close>, the requests issued so far and
  the files written so far. A file is recorded as the comic number and the suffix
  \<open>imgurl[-4:]\<close>; its name is \<open>"xkcd_"+str(i)+imgurl[-4:]\<close>.
\<close>

record seq_state =
  content :: bool
  requests :: "request list"
  files :: "(int \<times> string) list"

text \<open>
  \<^verbatim>\<open>
      for i in range(start, stop):
          url = "http://www.xkcd.com/"+str(i)+"/"
          rd = http.request('GET', url)
          data = rd.data
          res = re.search("/comics/[a-z0-9_()]*.(jpg|png)", data)
          if res:
              imgurl = "http://imgs.xkcd.com"+res.group()
              with http.request('GET', imgurl, preload_content=False) as r, open(...) as out_file:
                  shutil.copyfileobj(r, out_file)
          else:
              if re.search("Not Found", data) and i != 404:
                  content = False
  \<close>
  The result pairs the exception that ended the loop, if any, with the state reached.
\<close>

fun download_xkcd_loop :: "web \<Rightarrow> int list \<Rightarrow> seq_state \<Rightarrow> py_error option \<times> seq_state" where
  "download_xkcd_loop w [] st = (None, st)"
| "download_xkcd_loop w (i # rest) st =
     (let st1 = st\<lparr>requests := requests st @ [GetPage i]\<rparr> in
      case get_page w i of
        Inl e \<Rightarrow> (Some e, st1)
      | Inr data \<Rightarrow>
          (case re_search_comic data of
             Some m \<Rightarrow>
               (let imgurl = ''http://imgs.xkcd.com'' @ m;
                    st2 = st1\<lparr>requests := requests st1 @ [GetImage imgurl]\<rparr>
                in case fetch_image w imgurl of
                     Some e \<Rightarrow> (Some e, st2)
                   | None \<Rightarrow>
                       download_xkcd_loop w rest
                         (st2\<lparr>files := files st2 @ [(i, drop (length imgurl - 4) imgurl)]\<rparr>))
           | None \<Rightarrow>
               download_xkcd_loop w rest
                 (if contains ''Not Found'' data \<and> i \<noteq> 404 then st1\<lparr>content := False\<rparr>
                  else st1)))"

text \<open>\<open>def download_xkcd(start, stop)\<close>, with \<open>content = True\<close> before the loop.\<close>

definition download_xkcd :: "web \<Rightarrow> int \<Rightarrow> int \<Rightarrow> py_error option \<times> seq_state" where
  "download_xkcd w start stop =
     download_xkcd_loop w [start..stop - 1] \<lparr>content = True, requests = [], files = []\<rparr>"

definition is_page_request :: "request \<Rightarrow> bool" where
  "is_page_request r = (case r of GetPage i \<Rightarrow> True | GetImage u \<Rightarrow> False)"

subsection \<open>The threaded downloader\<close>

text \<open>
  What one pass through the body of the worker's loop does to the outside world:
  it writes the file of comic \<open>i\<close> with the given suffix, prints
  \<open>'Failed to download comic i'\<close>, or does nothing.
\<close>

datatype effect = SavedFile int string | PrintedFailure int | NoEffect

text \<open>
  The body of the loop of \<open>download_worker\<close> after \<open>q.task_done()\<close>:
  \<^verbatim>\<open>
          url = "http://www.xkcd.com/"+str(i)+"/"
          rd = http.request('GET', url)
          data = rd.read()
          res = re.search("/comics/[a-z0-9_()]*.(jpg|png)", data)
          if res:
              imgurl = "http://imgs.xkcd.com"+res.group()
              with http.request('GET', imgurl, preload_content=False) as r, open(...) as out_file:
                  shutil.copyfileobj(r, out_file)
          else:
              if re.search("Not Found", data) and i != 404:
                  print('Failed to download comic {}'.format(i))
  \<close>
  The worker takes its \<open>data\<close> from \<open>rd.read()\<close>, where \<open>download_xkcd\<close> takes it from
  \<open>rd.data\<close>. Nothing in the worker or in \<open>DownloadThread.run\<close> catches an exception.
\<close>

definition download_one :: "web \<Rightarrow> int \<Rightarrow> py_error + effect" where
  "download_one w i =
     (case get_page w i of
        Inl e \<Rightarrow> Inl e
      | Inr body \<Rightarrow>
          (let data = rd_read body in
           case re_search_comic data of
             Some m \<Rightarrow>
               (let imgurl = ''http://imgs.xkcd.com'' @ m
                in case fetch_image w imgurl of
                     Some e \<Rightarrow> Inl e
                   | None \<Rightarrow> Inr (SavedFile i (drop (length imgurl - 4) imgurl)))
           | None \<Rightarrow>
               if contains ''Not Found'' data \<and> i \<noteq> 404 then Inr (PrintedFailure i)
               else Inr NoEffect))"

text \<open>
  Control points of the main thread inside \<open>download_xkcd_threaded(nthreads, start, stop)\<close>:
  \<^item> \<open>MPut js\<close>: in \<open>for i in range(start, stop): q.put(i)\<close>, with \<open>js\<close> still to be put;
  \<^item> \<open>MStart ks\<close>: in \<open>for i in range(nthreads)\<close>, with the iterations \<open>ks\<close> still to run;
  \<^item> \<open>MJoin\<close>: at \<open>q.join()\<close>;
  \<^item> \<open>MDel\<close>: in \<open>while len(threads)>0: del threads[-1]\<close>;
  \<^item> \<open>MReturned\<close>: the call has returned.
  The function checks none of its arguments and has no \<open>raise\<close>, so the main thread has
  no failed control point.
\<close>

datatype main_pc = MPut "int list" | MStart "nat list" | MJoin | MDel | MReturned

text \<open>
  Control points of a \<open>DownloadThread\<close>:
  \<^item> \<open>RunLoop\<close>: at \<open>while self.running:\<close> in \<open>DownloadThread.run\<close>;
  \<^item> \<open>CheckEmpty\<close>: at \<open>while not q.empty():\<close> in \<open>download_worker\<close>;
  \<^item> \<open>AtGet\<close>: the queue was seen non-empty, at \<open>i = q.get()\<close>;
  \<^item> \<open>AtTaskDone i\<close>: holding item \<open>i\<close>, at \<open>q.task_done()\<close>;
  \<^item> \<open>Processing i\<close>: \<open>task_done\<close> was called, the rest of the loop body is still to run;
  \<^item> \<open>Dead i e\<close>: the thread was ended by the uncaught exception \<open>e\<close> while it held item \<open>i\<close>;
  \<^item> \<open>Terminated\<close>: \<open>run\<close> has left its loop.
\<close>

datatype worker_pc =
  RunLoop | CheckEmpty | AtGet | AtTaskDone int | Processing int | Dead int py_error | Terminated

text \<open>A \<open>DownloadThread\<close> object: its \<open>running\<close> attribute and where its thread stands.\<close>

record thread =
  running :: bool
  pc :: worker_pc

text \<open>
  The shared state: the \<open>Queue\<close> (its items in FIFO order and its counter
  \<open>unfinished_tasks\<close>), the main thread's control point and its list \<open>threads\<close> (indices
  into \<open>workers\<close>), and the started threads in the order they were started. Two logs record
  history and are never read by the program: \<open>claims\<close> holds a pair (worker, item) for every
  item that \<open>q.get()\<close> has delivered, \<open>completed\<close> a triple (worker, item, effect) for every
  pass through the loop body that ran to its end.
\<close>

record pool =
  queue :: "int list"
  unfinished :: nat
  main :: main_pc
  threads :: "nat list"
  workers :: "thread list"
  claims :: "(nat \<times> int) list"
  completed :: "(nat \<times> int \<times> effect) list"

text \<open>The state on entry: an empty queue and \<open>range(start, stop)\<close> still to be put.\<close>

definition init_pool :: "int \<Rightarrow> int \<Rightarrow> pool" where
  "init_pool start stop =
     \<lparr>queue = [], unfinished = 0, main = MPut [start..stop - 1], threads = [],
      workers = [], claims = [], completed = []\<rparr>"

text \<open>
  One atomic step of the main thread; \<open>None\<close> when it cannot move. \<open>q.put\<close> appends and
  increments \<open>unfinished_tasks\<close>; \<open>DownloadThread.start\<close> sets \<open>running\<close> and starts the
  thread at the head of \<open>run\<close>; \<open>q.join()\<close> blocks until \<open>unfinished_tasks\<close> is zero;
  \<open>del threads[-1]\<close> drops a reference and leaves the thread itself alone.
\<close>

definition step_main :: "int \<Rightarrow> pool \<Rightarrow> pool option" where
  "step_main nthreads s =
     (case main s of
        MPut [] \<Rightarrow> Some (s\<lparr>main := MStart [0..<nat nthreads]\<rparr>)
      | MPut (i # js) \<Rightarrow>
          Some (s\<lparr>queue := queue s @ [i], unfinished := Suc (unfinished s), main := MPut js\<rparr>)
      | MStart [] \<Rightarrow> Some (s\<lparr>main := MJoin\<rparr>)
      | MStart (k # ks) \<Rightarrow>
          Some (s\<lparr>workers := workers s @ [\<lparr>running = True, pc = RunLoop\<rparr>],
                  threads := threads s @ [length (workers s)],
                  main := MStart ks\<rparr>)
      | MJoin \<Rightarrow> if unfinished s = 0 then Some (s\<lparr>main := MDel\<rparr>) else None
      | MDel \<Rightarrow>
          if threads s \<noteq> [] then Some (s\<lparr>threads := butlast (threads s)\<rparr>)
          else Some (s\<lparr>main := MReturned\<rparr>)
      | MReturned \<Rightarrow> None)"

text \<open>The thread \<open>k\<close> moves to the control point \<open>p\<close>.\<close>

definition goto :: "nat \<Rightarrow> worker_pc \<Rightarrow> pool \<Rightarrow> pool" where
  "goto k p s = s\<lparr>workers := (workers s)[k := (workers s ! k)\<lparr>pc := p\<rparr>]\<rparr>"

text \<open>
  One atomic step of the thread \<open>k\<close>; \<open>None\<close> when it does not exist, has ended, or is
  blocked. \<open>q.empty()\<close>, \<open>q.get()\<close> and \<open>q.task_done()\<close> each run under the queue's lock;
  \<open>q.get()\<close> blocks on an empty queue; \<open>q.task_done()\<close> raises \<open>ValueError\<close> when
  \<open>unfinished_tasks\<close> is already zero. When \<open>download_worker\<close> returns, \<open>run\<close> tests
  \<open>self.running\<close> again.
\<close>

definition step_worker :: "web \<Rightarrow> nat \<Rightarrow> pool \<Rightarrow> pool option" where
  "step_worker w k s =
     (if length (workers s) \<le> k then None
      else case pc (workers s ! k) of
        RunLoop \<Rightarrow>
          Some (goto k (if running (workers s ! k) then CheckEmpty else Terminated) s)
      | CheckEmpty \<Rightarrow> Some (goto k (if queue s = [] then RunLoop else AtGet) s)
      | AtGet \<Rightarrow>
          (case queue s of
             [] \<Rightarrow> None
           | i # rest \<Rightarrow>
               Some (goto k (AtTaskDone i) (s\<lparr>queue := rest, claims := claims s @ [(k, i)]\<rparr>)))
      | AtTaskDone i \<Rightarrow>
          (if unfinished s = 0 then Some (goto k (Dead i ValueError) s)
           else Some (goto k (Processing i) (s\<lparr>unfinished := unfinished s - 1\<rparr>)))
      | Processing i \<Rightarrow>
          (case download_one w i of
             Inl e \<Rightarrow> Some (goto k (Dead i e) s)
           | Inr eff \<Rightarrow>
               Some (goto k CheckEmpty (s\<lparr>completed := completed s @ [(k, i, eff)]\<rparr>)))
      | Dead i e \<Rightarrow> None
      | Terminated \<Rightarrow> None)"

text \<open>The scheduler picks the main thread or a worker thread for the next step.\<close>

datatype tid = MainThread | Worker nat

fun step :: "web \<Rightarrow> int \<Rightarrow> tid \<Rightarrow> pool \<Rightarrow> pool option" where
  "step w nthreads MainThread s = step_main nthreads s"
| "step w nthreads (Worker k) s = step_worker w k s"

text \<open>Running a schedule: the threads named in the list take one step each, in order.\<close>

fun exec :: "web \<Rightarrow> int \<Rightarrow> tid list \<Rightarrow> pool \<Rightarrow> pool option" where
  "exec w nthreads [] s = Some s"
| "exec w nthreads (t # ts) s =
     (case step w nthreads t s of None \<Rightarrow> None | Some s' \<Rightarrow> exec w nthreads ts s')"

text \<open>
  The states that some interleaving of \<open>download_xkcd_threaded(nthreads, start, stop)\<close>
  and its threads reaches.
\<close>

inductive reachable :: "web \<Rightarrow> int \<Rightarrow> int \<Rightarrow> int \<Rightarrow> pool \<Rightarrow> bool"
  for w :: web and nthreads :: int and start :: int and stop :: int where
  reach_init: "reachable w nthreads start stop (init_pool start stop)"
| reach_step: "reachable w nthreads start stop s \<Longrightarrow> step w nthreads t s = Some s'
     \<Longrightarrow> reachable w nthreads start stop s'"

text \<open>Webs for concrete runs.\<close>

definition web_not_found :: web where
  "web_not_found = \<lparr>get_page = (\<lambda>i. Inr ''404 Not Found''), fetch_image = (\<lambda>u. None)\<rparr>"

definition web_comics :: web where
  "web_comics =
     \<lparr>get_page = (\<lambda>i. Inr ''<img src=/comics/barrel_cropped_(1).jpg>''),
      fetch_image = (\<lambda>u. None)\<rparr>"

definition web_first_fails :: web where
  "web_first_fails =
     \<lparr>get_page = (\<lambda>i. if i = 0 then Inl HTTPError else Inr ''404 Not Found''),
      fetch_image = (\<lambda>u. None)\<rparr>"

subsection \<open>Notions used to state the properties\<close>

text \<open>The items the main thread has not yet put into the queue.\<close>

fun pending :: "main_pc \<Rightarrow> int list" where
  "pending (MPut js) = js"
| "pending (MStart ks) = []"
| "pending MJoin = []"
| "pending MDel = []"
| "pending MReturned = []"

text \<open>
  Conservation of items: the items delivered so far, those in the queue and those still
  to be put are together exactly \<open>range(start, stop)\<close>.
\<close>

definition items_inv :: "int \<Rightarrow> int \<Rightarrow> pool \<Rightarrow> bool" where
  "items_inv start stop s \<longleftrightarrow>
     mset (map snd (claims s)) + mset (queue s) + mset (pending (main s))
       = mset [start..stop - 1]"

text \<open>
  With \<open>nthreads \<le> 0\<close> the loop over \<open>range(nthreads)\<close> has no iteration: no thread exists
  and the logs stay empty.
\<close>

definition no_workers_inv :: "pool \<Rightarrow> bool" where
  "no_workers_inv s \<longleftrightarrow>
     workers s = [] \<and> claims s = [] \<and> completed s = [] \<and>
     (case main s of MStart ks \<Rightarrow> ks = [] | _ \<Rightarrow> True)"

text \<open>
  With no thread and a non-empty range, \<open>unfinished_tasks\<close> is positive from the first
  \<open>q.put\<close> on, so the main thread never gets past \<open>q.join()\<close>.
\<close>

definition join_blocked_inv :: "pool \<Rightarrow> bool" where
  "join_blocked_inv s \<longleftrightarrow>
     workers s = [] \<and>
     (case main s of
        MPut js \<Rightarrow> js \<noteq> [] \<or> 0 < unfinished s
      | MStart ks \<Rightarrow> ks = [] \<and> 0 < unfinished s
      | MJoin \<Rightarrow> 0 < unfinished s
      | MDel \<Rightarrow> False
      | MReturned \<Rightarrow> False)"

text \<open>A thread that holds no item.\<close>

definition idle_pc :: "worker_pc \<Rightarrow> bool" where
  "idle_pc p \<longleftrightarrow> p = RunLoop \<or> p = CheckEmpty \<or> p = Terminated"

text \<open>
  With an empty range the queue stays empty, every thread stays idle, and the number of
  threads grows to \<open>nthreads\<close> while the main thread starts them.
\<close>

definition empty_batch_inv :: "int \<Rightarrow> pool \<Rightarrow> bool" where
  "empty_batch_inv n s \<longleftrightarrow>
     queue s = [] \<and> unfinished s = 0 \<and> claims s = [] \<and> completed s = [] \<and>
     pending (main s) = [] \<and>
     (\<forall>j < length (workers s). idle_pc (pc (workers s ! j))) \<and>
     (case main s of
        MPut js \<Rightarrow> workers s = []
      | MStart ks \<Rightarrow> length (workers s) + length ks = nat n
      | _ \<Rightarrow> length (workers s) = nat n)"

text \<open>Every started thread still has \<open>running\<close> set and has not left \<open>run\<close>.\<close>

definition never_stopped :: "pool \<Rightarrow> bool" where
  "never_stopped s \<longleftrightarrow>
     (\<forall>j < length (workers s). running (workers s ! j) \<and> pc (workers s ! j) \<noteq> Terminated)"

text \<open>
  The counter \<open>unfinished_tasks\<close> counts the queued items and the items whose holder has
  not yet called \<open>q.task_done()\<close>; once the main thread is past \<open>q.join()\<close> it is zero.
\<close>

fun at_task_done :: "worker_pc \<Rightarrow> bool" where
  "at_task_done (AtTaskDone i) = True"
| "at_task_done p = False"

definition counter_inv :: "pool \<Rightarrow> bool" where
  "counter_inv s \<longleftrightarrow>
     unfinished s = length (queue s) + length (filter (\<lambda>x. at_task_done (pc x)) (workers s)) \<and>
     (main s = MDel \<or> main s = MReturned \<longrightarrow> unfinished s = 0)"

text \<open>
  The item a thread holds, if any, and the items held by all threads. Every delivered
  item is either held by the thread it was delivered to or recorded as completed by it.
\<close>

fun holding :: "worker_pc \<Rightarrow> int list" where
  "holding (AtTaskDone i) = [i]"
| "holding (Processing i) = [i]"
| "holding (Dead i e) = [i]"
| "holding p = []"

definition held :: "pool \<Rightarrow> int list" where
  "held s = concat (map (\<lambda>x. holding (pc x)) (workers s))"

definition work_inv :: "pool \<Rightarrow> bool" where
  "work_inv s \<longleftrightarrow>
     mset (map snd (claims s)) = mset (map (\<lambda>(k, i, e). i) (completed s)) + mset (held s) \<and>
     (\<forall>(k, i, e) \<in> set (completed s). (k, i) \<in> set (claims s)) \<and>
     (\<forall>k < length (workers s). \<forall>i \<in> set (holding (pc (workers s ! k))).
        (k, i) \<in> set (claims s))"

text \<open>
  A thread that has not ended, and a thread that holds an item it has still to finish.
\<close>

fun alive :: "worker_pc \<Rightarrow> bool" where
  "alive (Dead i e) = False"
| "alive Terminated = False"
| "alive p = True"

fun busy :: "worker_pc \<Rightarrow> bool" where
  "busy (AtTaskDone i) = True"
| "busy (Processing i) = True"
| "busy p = False"

text \<open>
  Nothing is left to do: every item has been put and delivered, and no thread is still
  working on one.
\<close>

definition quiescent :: "pool \<Rightarrow> bool" where
  "quiescent s \<longleftrightarrow>
     pending (main s) = [] \<and> queue s = [] \<and>
     (\<forall>m < length (workers s). \<not> busy (pc (workers s ! m)))"

text \<open>
  A bound on the steps still needed to get there: each of the steps that put an item,
  deliver it, acknowledge it and finish it lowers this number.
\<close>

fun weight :: "worker_pc \<Rightarrow> nat" where
  "weight RunLoop = 2"
| "weight CheckEmpty = 1"
| "weight AtGet = 0"
| "weight (AtTaskDone i) = 3"
| "weight (Processing i) = 2"
| "weight (Dead i e) = 0"
| "weight Terminated = 0"

definition remaining_work :: "pool \<Rightarrow> nat" where
  "remaining_work s =
     5 * length (pending (main s)) + 4 * length (queue s)
       + sum_list (map (\<lambda>x. weight (pc x)) (workers s))"

text \<open>A thread is ended only by the exception that its item's loop body raised.\<close>

definition dead_inv :: "web \<Rightarrow> pool \<Rightarrow> bool" where
  "dead_inv w s \<longleftrightarrow>
     (\<forall>m < length (workers s). \<forall>i e.
        pc (workers s ! m) = Dead i e \<longrightarrow> download_one w i = Inl e)"

text \<open>The items whose loop body has run to its end.\<close>

definition processed :: "pool \<Rightarrow> int set" where
  "processed s = (\<lambda>(k, i, e). i) ` set (completed s)"

text \<open>
  A state for concrete steps: two workers, each in the loop body with an item of its own,
  a third item still queued.
\<close>

definition two_busy :: pool where
  "two_busy =
     \<lparr>queue = [2], unfinished = 1, main = MJoin, threads = [0, 1],
      workers = [\<lparr>running = True, pc = Processing 0\<rparr>, \<lparr>running = True, pc = Processing 1\<rparr>],
      claims = [(0, 0), (1, 1)], completed = []\<rparr>"

section \<open>Properties of the log-probability functions\<close>

lemma fl_small: "\<bar>r\<bar> \<le> 1000 \<Longrightarrow> fl r = Fin r"
  by (auto simp: fl_def float_limit_def)

text \<open>
  Claim C5. The claim asks that \<open>lnprob\<close> be the logarithm of the prior density plus the
  log-likelihood. At \<open>theta = (b, m, sigma) = (2, 0, 1)\<close>, \<open>x = [1]\<close>, \<open>y = [5]\<close> the prior
  density is 1, its logarithm 0 and the log-likelihood -9, so the log-posterior is -9;
  \<open>lnprob\<close> returns -8, the density itself added to the log-likelihood.
\<close>

theorem lnprob_adds_prior_density:
  "lnprob [NpFloat (Fin 2), NpFloat (Fin 0), NpFloat (Fin 1)] [Fin 1] [Fin 5] = Inr (Fin (- 8)) \<and>
   lnlike [NpFloat (Fin 2), NpFloat (Fin 0), NpFloat (Fin 1)] [Fin 1] [Fin 5] = Inr (Fin (- 9)) \<and>
   lnprior [NpFloat (Fin 2), NpFloat (Fin 0), NpFloat (Fin 1)] = Inr (Fin 1) \<and>
   ln (1 / (1 * sqrt (1 + 0 ^ 2) ^ 3)) + (- 9) = (- 9 :: real)"
  by (simp add: lnprob_def lnprior_def lnlike_def np_sub_def linear_func_def
      np_add_def np_mul_def np_div_def fl_small)

lemma float_limit_pos: "1 < float_limit"
  by (simp add: float_limit_def)

lemma fl_ge1: "1 \<le> r \<Longrightarrow> ge1 (fl r)"
  using float_limit_pos by (auto simp: fl_def ge1_def)

lemma square_ge0:
  "(\<exists>x. 0 \<le> x \<and> np_mul v v = Fin x) \<or> np_mul v v = PInf \<or> np_mul v v = NaN"
  using float_limit_pos
  by (cases v) (auto simp: np_mul_def fl_def dest: zero_le_square[THEN order_trans])


lemma one_plus_square_ge1: "ge1 (np_add (Fin 1) (np_mul v v))"
proof -
  consider x where "0 \<le> x" "np_mul v v = Fin x" | "np_mul v v = PInf" | "np_mul v v = NaN"
    using square_ge0[of v] by blast
  then show ?thesis
  proof cases
    case 1
    then have "1 + x \<noteq> 0" and "1 \<le> 1 + x" by simp_all
    with 1 show ?thesis using fl_ge1[of "1 + x"] by (simp add: np_add_def)
  next
    case 2
    then show ?thesis by (simp add: np_add_def ge1_def)
  next
    case 3
    then show ?thesis by (simp add: np_add_def ge1_def)
  qed
qed

lemma sqrt_ge1: "ge1 v \<Longrightarrow> ge1 (np_sqrt v)"
  by (auto simp: ge1_def)

lemma fl_pos:
  assumes "0 < r"
  shows "(\<exists>x. 0 < x \<and> fl r = Fin x) \<or> fl r = PInf"
  using assms float_limit_pos by (auto simp: fl_def)

lemma mul_ge1:
  assumes "ge1 a" and "ge1 b"
  shows "ge1 (np_mul a b)"
proof -
  have f: "ge1 (np_mul (Fin x) (Fin y))" if "1 \<le> x" "1 \<le> y" for x y :: real
  proof -
    have "1 * 1 \<le> x * y" using that by (intro mult_mono) auto
    then have "ge1 (fl (x * y))" using fl_ge1 by simp
    then show ?thesis using that by (simp add: np_mul_def)
  qed
  have i: "np_mul (Fin x) PInf = PInf" "np_mul PInf (Fin x) = PInf" if "1 \<le> x" for x :: real
    using that by (simp_all add: np_mul_def)
  have n: "np_mul NaN v = NaN" "np_mul v NaN = NaN" "np_mul PInf PInf = PInf" for v
    by (simp_all add: np_mul_def)
  from assms consider x y where "a = Fin x" "1 \<le> x" "b = Fin y" "1 \<le> y"
    | x where "a = Fin x" "1 \<le> x" "b = PInf"
    | y where "a = PInf" "b = Fin y" "1 \<le> y"
    | "a = PInf" "b = PInf" | "a = NaN" | "b = NaN"
    unfolding ge1_def by blast
  then show ?thesis
  proof cases
    case 1
    then show ?thesis using f by simp
  next
    case 2
    then show ?thesis using i by (simp add: ge1_def)
  next
    case 3
    then show ?thesis using i by (simp add: ge1_def)
  next
    case 4
    then show ?thesis using n by (simp add: ge1_def)
  next
    case 5
    then show ?thesis using n by (simp add: ge1_def)
  next
    case 6
    then show ?thesis using n by (simp add: ge1_def)
  qed
qed

lemma zero_times_ge1:
  assumes "ge1 d"
  shows "np_mul (Fin 0) d = Fin 0 \<or> np_mul (Fin 0) d = NaN"
    and "np_mul NegZero d = NegZero \<or> np_mul NegZero d = NaN"
  using assms by (auto simp: ge1_def np_mul_def)

lemma pos_times_ge1:
  assumes "ge1 d" and "0 < s"
  shows "(\<exists>x. 0 < x \<and> np_mul (Fin s) d = Fin x) \<or> np_mul (Fin s) d = PInf
         \<or> np_mul (Fin s) d = NaN"
proof -
  from assms(1) consider x where "d = Fin x" "1 \<le> x" | "d = PInf" | "d = NaN"
    unfolding ge1_def by blast
  then show ?thesis
  proof cases
    case 1
    then have "0 < s * x" using assms(2) by simp
    from fl_pos[OF this] 1 assms(2) show ?thesis by (auto simp: np_mul_def)
  next
    case 2
    then show ?thesis using assms(2) by (simp add: np_mul_def)
  next
    case 3
    then show ?thesis by (simp add: np_mul_def)
  qed
qed

lemma one_over_pos:
  assumes "0 < x"
  shows "np_div (Fin 1) (Fin x) \<noteq> NInf"
proof -
  have "0 < 1 / x" using assms by simp
  from fl_pos[OF this] assms show ?thesis by (auto simp: np_div_def)
qed

lemma pow2_cases:
  "(\<exists>p. m = PyFloat (Fin p) \<and> float_limit \<le> p * p \<and> pow2 m = Inl OverflowError)
   \<or> ((\<forall>p. m = PyFloat (Fin p) \<longrightarrow> p * p < float_limit) \<and> pow2 m = Inr (np_mul (val m) (val m)))"
proof (cases m)
  case (PyFloat v)
  then show ?thesis using float_limit_pos by (cases v) auto
next
  case (NpFloat v)
  then show ?thesis by simp
qed

lemma denom_ge1: "ge1 (denom m)"
  unfolding denom_def Let_def
  by (intro mul_ge1 sqrt_ge1 one_plus_square_ge1)

lemma lnprior_no_overflow:
  assumes "pow2 m = Inr (np_mul (val m) (val m))"
  shows "lnprior [b, m, sigma] =
           (if np_lt0 (val sigma) then Inr NInf
            else Inr (np_div (Fin 1) (np_mul (val sigma) (denom m))))"
  using assms by (simp add: lnprior_def denom_def Let_def)

lemma lnprior_overflow:
  assumes "pow2 m = Inl OverflowError"
  shows "lnprior [b, m, sigma] = (if np_lt0 (val sigma) then Inr NInf else Inl OverflowError)"
  using assms by (simp add: lnprior_def)

text \<open>
  Claim C10, as the code has it. \<open>lnprior\<close> returns minus infinity for every strictly
  negative \<open>sigma\<close> and for no strictly positive one. For \<open>sigma = 0\<close>, of either sign, the
  division is numpy's and raises no division-by-zero error: \<open>lnprior\<close> returns plus
  infinity or nan for \<open>+0.0\<close> and minus infinity or nan for \<open>-0.0\<close>, and the finiteness test
  of \<open>lnprob\<close> turns either into minus infinity. The one exception is a Python float \<open>m\<close>
  whose square overflows: then \<open>m**2\<close> raises \<open>OverflowError\<close> before the division.
\<close>

theorem lnprior_sigma_zero:
  "(np_lt0 (val sigma) \<longrightarrow> lnprior [b, m, sigma] = Inr NInf) \<and>
   (val sigma = Fin s \<and> 0 < s \<longrightarrow> lnprior [b, m, sigma] \<noteq> Inr NInf) \<and>
   (val sigma = Fin 0 \<or> val sigma = NegZero \<longrightarrow>
      lnprior [b, m, sigma] \<noteq> Inl ZeroDivisionError \<and>
      ((\<forall>p. m = PyFloat (Fin p) \<longrightarrow> p * p < float_limit) \<longrightarrow>
         (val sigma = Fin 0 \<longrightarrow>
            lnprior [b, m, sigma] = Inr PInf \<or> lnprior [b, m, sigma] = Inr NaN) \<and>
         (val sigma = NegZero \<longrightarrow>
            lnprior [b, m, sigma] = Inr NInf \<or> lnprior [b, m, sigma] = Inr NaN) \<and>
         lnprob [b, m, sigma] x y = Inr NInf) \<and>
      ((\<exists>p. m = PyFloat (Fin p) \<and> float_limit \<le> p * p) \<longrightarrow>
         lnprior [b, m, sigma] = Inl OverflowError \<and>
         lnprob [b, m, sigma] x y = Inl OverflowError))"
proof (intro conjI impI)
  assume "np_lt0 (val sigma)"
  then show "lnprior [b, m, sigma] = Inr NInf" by (simp add: lnprior_def)
next
  assume s: "val sigma = Fin s \<and> 0 < s"
  show "lnprior [b, m, sigma] \<noteq> Inr NInf"
    using pow2_cases[of m]
  proof (elim disjE exE conjE)
    fix p assume "pow2 m = Inl OverflowError"
    then show ?thesis using s by (simp add: lnprior_overflow)
  next
    assume "pow2 m = Inr (np_mul (val m) (val m))"
    then have l: "lnprior [b, m, sigma] = Inr (np_div (Fin 1) (np_mul (Fin s) (denom m)))"
      using s by (simp add: lnprior_no_overflow)
    from pos_times_ge1[OF denom_ge1, of s m] s
    consider x where "0 < x" "np_mul (Fin s) (denom m) = Fin x"
      | "np_mul (Fin s) (denom m) = PInf" | "np_mul (Fin s) (denom m) = NaN"
      by blast
    then show ?thesis
    proof cases
      case 1
      then show ?thesis using l one_over_pos[of x] by simp
    next
      case 2
      then show ?thesis using l by (simp add: np_div_def)
    next
      case 3
      then show ?thesis using l by (simp add: np_div_def)
    qed
  qed
next
  assume z: "val sigma = Fin 0 \<or> val sigma = NegZero"
  show "lnprior [b, m, sigma] \<noteq> Inl ZeroDivisionError"
    using pow2_cases[of m] z
    by (auto simp: lnprior_overflow lnprior_no_overflow)
next
  assume z: "val sigma = Fin 0 \<or> val sigma = NegZero"
    and n: "\<forall>p. m = PyFloat (Fin p) \<longrightarrow> p * p < float_limit"
  have pw: "pow2 m = Inr (np_mul (val m) (val m))"
    using pow2_cases[of m] n by fastforce
  note zt = zero_times_ge1[OF denom_ge1, of m]
  have pz: "lnprior [b, m, sigma] = Inr PInf \<or> lnprior [b, m, sigma] = Inr NaN"
    if "val sigma = Fin 0"
    using that zt(1) by (auto simp: lnprior_no_overflow[OF pw] np_div_def)
  have nz: "lnprior [b, m, sigma] = Inr NInf \<or> lnprior [b, m, sigma] = Inr NaN"
    if "val sigma = NegZero"
    using that zt(2) by (auto simp: lnprior_no_overflow[OF pw] np_div_def)
  show "val sigma = Fin 0 \<Longrightarrow>
      lnprior [b, m, sigma] = Inr PInf \<or> lnprior [b, m, sigma] = Inr NaN"
    by (rule pz)
  show "val sigma = NegZero \<Longrightarrow>
      lnprior [b, m, sigma] = Inr NInf \<or> lnprior [b, m, sigma] = Inr NaN"
    by (rule nz)
  show "lnprob [b, m, sigma] x y = Inr NInf"
    using z pz nz by (auto simp: lnprob_def)
next
  assume z: "val sigma = Fin 0 \<or> val sigma = NegZero"
    and o: "\<exists>p. m = PyFloat (Fin p) \<and> float_limit \<le> p * p"
  have pw: "pow2 m = Inl OverflowError" using o by auto
  show "lnprior [b, m, sigma] = Inl OverflowError"
    using z by (auto simp: lnprior_overflow[OF pw])
  then show "lnprob [b, m, sigma] x y = Inl OverflowError"
    by (simp add: lnprob_def)
qed


text \<open>
  At \<open>sigma = +0.0\<close> and at \<open>sigma = -0.0\<close> \<open>lnprob\<close> returns minus infinity; a Python
  float \<open>m = 1e200\<close> makes \<open>lnprior\<close> raise \<open>OverflowError\<close>; \<open>sigma = -1\<close> is rejected and
  \<open>sigma = 1\<close> is not.
\<close>

theorem lnprior_sigma_zero_witness:
  "lnprob [NpFloat (Fin 1), NpFloat (Fin 2), NpFloat (Fin 0)] [Fin 1] [Fin 5] = Inr NInf \<and>
   lnprob [NpFloat (Fin 1), NpFloat (Fin 2), NpFloat NegZero] [Fin 1] [Fin 5] = Inr NInf \<and>
   lnprior [PyFloat (Fin 1), PyFloat (Fin (10 ^ 200)), PyFloat (Fin 0)] = Inl OverflowError \<and>
   lnprior [NpFloat (Fin 1), NpFloat (Fin 2), NpFloat (Fin (- 1))] = Inr NInf \<and>
   lnprior [NpFloat (Fin 1), NpFloat (Fin 2), NpFloat (Fin 1)] \<noteq> Inr NInf"
proof -
  have big: "float_limit \<le> 10 ^ 200 * 10 ^ 200"
    by (simp add: float_limit_def)
  have a: "lnprob [NpFloat (Fin 1), NpFloat (Fin 2), NpFloat (Fin 0)] [Fin 1] [Fin 5] = Inr NInf"
    using lnprior_sigma_zero[of "NpFloat (Fin 0)" "NpFloat (Fin 1)" "NpFloat (Fin 2)" 1
        "[Fin 1]" "[Fin 5]"]
    by simp
  have b: "lnprob [NpFloat (Fin 1), NpFloat (Fin 2), NpFloat NegZero] [Fin 1] [Fin 5] = Inr NInf"
    using lnprior_sigma_zero[of "NpFloat NegZero" "NpFloat (Fin 1)" "NpFloat (Fin 2)" 1
        "[Fin 1]" "[Fin 5]"]
    by simp
  have c: "lnprior [PyFloat (Fin 1), PyFloat (Fin (10 ^ 200)), PyFloat (Fin 0)] = Inl OverflowError"
    using lnprior_sigma_zero[of "PyFloat (Fin 0)" "PyFloat (Fin 1)" "PyFloat (Fin (10 ^ 200))" 1
        "[Fin 1]" "[Fin 5]"] big
    by simp
  have d: "lnprior [NpFloat (Fin 1), NpFloat (Fin 2), NpFloat (Fin (- 1))] = Inr NInf"
    using lnprior_sigma_zero[of "NpFloat (Fin (- 1))" "NpFloat (Fin 1)" "NpFloat (Fin 2)" 1
        "[Fin 1]" "[Fin 5]"]
    by simp
  have e: "lnprior [NpFloat (Fin 1), NpFloat (Fin 2), NpFloat (Fin 1)] \<noteq> Inr NInf"
    using lnprior_sigma_zero[of "NpFloat (Fin 1)" "NpFloat (Fin 1)" "NpFloat (Fin 2)" 1
        "[Fin 1]" "[Fin 5]"]
    by simp
  from a b c d e show ?thesis by simp
qed

text \<open>
  Claim C10 as stated fails: at \<open>theta = (0, 0, 0)\<close> neither function raises;
  \<open>lnprior\<close> returns plus infinity and \<open>lnprob\<close> minus infinity.
\<close>

theorem lnprob_sigma_zero_returns:
  "lnprior [NpFloat (Fin 0), NpFloat (Fin 0), NpFloat (Fin 0)] = Inr PInf \<and>
   lnprob [NpFloat (Fin 0), NpFloat (Fin 0), NpFloat (Fin 0)] [Fin 1] [Fin 5] = Inr NInf"
  by (simp add: lnprior_def lnprob_def np_add_def np_mul_def np_div_def fl_small)

section \<open>Properties of the Monte Carlo split and reduction\<close>

lemma collect_total:
  "(\<And>a. a \<in> set xs \<Longrightarrow> f a = Inr (g a)) \<Longrightarrow> collect f xs = Inr (map g xs)"
  by (induction xs) auto

lemma recv_loop_sum: "recv_loop c arrival acc = acc + sum_list (map c arrival)"
  by (induction arrival arbitrary: acc) auto

lemma sum_list_const: "sum_list (map (\<lambda>r. c) xs) = int (length xs) * c" for c :: int
  by (induction xs) (auto simp: algebra_simps)

lemma sendrcv_root_total:
  assumes "mset arrival = mset [1..<sz]" and "1 \<le> sz"
  shows "sendrcv_root_sum c arrival = sum_list (map c [0..<sz])"
proof -
  have "sum_list (map c arrival) = sum_list (map c [1..<sz])"
    using assms(1) by (metis mset_map sum_mset_sum_list)
  moreover have "[0..<sz] = 0 # [1..<sz]" using assms(2) by (simp add: upt_conv_Cons)
  ultimately show ?thesis by (simp add: sendrcv_root_sum_def recv_loop_sum)
qed

lemma reduce_locals_eq:
  assumes "0 \<le> n_samples" and "1 \<le> sz"
  shows "reduce_locals draw n_samples sz rank =
           Inr \<lparr>per_task = n_samples div int sz,
                draws_sum = n_samples - n_samples mod int sz,
                n_in_circle_sum =
                  (if rank = 0
                   then (\<Sum>r\<leftarrow>[0..<sz].
                           in_circle_count (fst (draw r (nat (n_samples div int sz))))
                                           (snd (draw r (nat (n_samples div int sz)))))
                   else 0)\<rparr>"
proof -
  let ?k = "n_samples div int sz"
  let ?c = "\<lambda>r. in_circle_count (fst (draw r (nat ?k))) (snd (draw r (nat ?k)))"
  have sz: "sz \<noteq> 0" using assms(2) by simp
  have k0: "0 \<le> ?k" using assms(1) sz by (simp add: pos_imp_zdiv_nonneg_iff)
  have split: "n_samples_per_task n_samples sz = Inr ?k"
    using sz by (simp add: n_samples_per_task_def)
  have loc: "n_in_circle draw n_samples sz r = Inr (?c r)" for r
    using k0 by (simp add: n_in_circle_def split split: prod.splits)
  have col: "collect (n_in_circle draw n_samples sz) [0..<sz] = Inr (map ?c [0..<sz])"
    by (rule collect_total) (rule loc)
  show ?thesis
    by (simp add: reduce_locals_def split col comm_reduce_sum_def minus_mod_eq_div_mult)
qed

text \<open>
  With fewer samples than processes every process draws nothing, \<open>draws_sum\<close> is zero, and
  on every rank but the root the division that computes \<open>area\<close> raises.
\<close>

lemma area_raises_without_draws:
  assumes "0 \<le> n_samples" and "n_samples < int sz" and "rank \<noteq> 0"
  shows "monte_carlo_area_reduce draw n_samples sz rank = Inl ZeroDivisionError"
proof -
  have "1 \<le> sz" using assms(1,2) by linarith
  from reduce_locals_eq[OF assms(1) this, of draw rank] assms
  show ?thesis by (simp add: monte_carlo_area_reduce_def)
qed

text \<open>
  Claim C8, as the code has it. For \<open>n_samples \<ge> 0\<close> and \<open>size \<ge> 1\<close> every process draws
  \<open>n_samples // size\<close> samples, so the per-process sample counts sum to
  \<open>n_samples - n_samples mod size\<close>, which is \<open>n_samples\<close> exactly when \<open>size\<close> divides
  \<open>n_samples\<close>. The count obtained through the reduction is the sum of the local counts
  on the root and 0 on every other rank; the root of the send/receive variant obtains the
  same sum whatever the order in which the messages arrive.
\<close>

theorem reduce_split_and_combine:
  assumes "0 \<le> n_samples" and "1 \<le> sz" and "rank < sz"
  shows "n_samples_per_task n_samples sz = Inr (n_samples div int sz) \<and>
         (\<Sum>r\<leftarrow>[0..<sz]. n_samples div int sz) = n_samples - n_samples mod int sz \<and>
         ((\<Sum>r\<leftarrow>[0..<sz]. n_samples div int sz) = n_samples \<longleftrightarrow> int sz dvd n_samples) \<and>
         (\<forall>r. n_in_circle draw n_samples sz r =
                Inr (in_circle_count (fst (draw r (nat (n_samples div int sz))))
                                     (snd (draw r (nat (n_samples div int sz)))))) \<and>
         reduce_locals draw n_samples sz rank =
           Inr \<lparr>per_task = n_samples div int sz,
                draws_sum = n_samples - n_samples mod int sz,
                n_in_circle_sum =
                  (if rank = 0
                   then (\<Sum>r\<leftarrow>[0..<sz].
                           in_circle_count (fst (draw r (nat (n_samples div int sz))))
                                           (snd (draw r (nat (n_samples div int sz)))))
                   else 0)\<rparr> \<and>
         (mset arrival = mset [1..<sz] \<longrightarrow>
            sendrcv_root_sum
              (\<lambda>r. in_circle_count (fst (draw r (nat (n_samples div int sz))))
                                    (snd (draw r (nat (n_samples div int sz))))) arrival
            = (\<Sum>r\<leftarrow>[0..<sz].
                 in_circle_count (fst (draw r (nat (n_samples div int sz))))
                                 (snd (draw r (nat (n_samples div int sz))))))"
proof -
  let ?k = "n_samples div int sz"
  let ?c = "\<lambda>r. in_circle_count (fst (draw r (nat ?k))) (snd (draw r (nat ?k)))"
  have sz: "sz \<noteq> 0" using assms(2) by simp
  have k0: "0 \<le> ?k" using assms(1) sz by (simp add: pos_imp_zdiv_nonneg_iff)
  have split: "n_samples_per_task n_samples sz = Inr ?k"
    using sz by (simp add: n_samples_per_task_def)
  have tot: "(\<Sum>r\<leftarrow>[0..<sz]. ?k) = n_samples - n_samples mod int sz"
    by (simp add: sum_list_const minus_mod_eq_mult_div)
  have dv: "(n_samples - n_samples mod int sz = n_samples) \<longleftrightarrow> int sz dvd n_samples"
    by (simp add: dvd_eq_mod_eq_0)
  have loc: "n_in_circle draw n_samples sz r = Inr (?c r)" for r
    using k0 by (simp add: n_in_circle_def split split: prod.splits)
  have red: "reduce_locals draw n_samples sz rank =
           Inr \<lparr>per_task = ?k, draws_sum = n_samples - n_samples mod int sz,
                n_in_circle_sum = (if rank = 0 then sum_list (map ?c [0..<sz]) else 0)\<rparr>"
    by (rule reduce_locals_eq[OF assms(1,2)])
  have sr: "mset arrival = mset [1..<sz] \<longrightarrow>
              sendrcv_root_sum ?c arrival = sum_list (map ?c [0..<sz])"
    using sendrcv_root_total[OF _ assms(2)] by blast
  show ?thesis using split tot dv loc red sr by simp
qed

theorem reduce_split_and_combine_witness:
  "n_samples_per_task 12 3 = Inr 4 \<and>
   reduce_locals origin_draw 12 3 0 = Inr \<lparr>per_task = 4, draws_sum = 12, n_in_circle_sum = 12\<rparr> \<and>
   sendrcv_root_sum (\<lambda>r. 4) [2, 1] = 12"
  using reduce_split_and_combine[of 12 3 0 origin_draw "[2, 1]"]
  by (simp add: origin_draw_def in_circle_count_def upt_conv_Cons numeral_3_eq_3)

text \<open>
  Claim C8 as stated fails: with \<open>n_samples = 10\<close> and three processes each process draws
  3 samples, 9 in all and not 10; and on rank 1 the reduced count is 0, not the sum.
\<close>

theorem split_loses_remainder:
  "n_samples_per_task 10 3 = Inr 3 \<and> (\<Sum>r\<leftarrow>[0..<3]. (3::int)) = 9 \<and>
   reduce_locals origin_draw 10 3 1 = Inr \<lparr>per_task = 3, draws_sum = 9, n_in_circle_sum = 0\<rparr>"
  by (simp add: reduce_locals_def n_samples_per_task_def n_in_circle_def origin_draw_def
     comm_reduce_sum_def in_circle_count_def upt_conv_Cons numeral_3_eq_3)

section \<open>Properties of the sequential downloader\<close>

lemma is_page_request_simps [simp]:
  "is_page_request (GetPage i)" "\<not> is_page_request (GetImage u)"
  by (simp_all add: is_page_request_def)

lemma loop_requests_every_page:
  assumes "\<And>i. i \<in> set js \<Longrightarrow> get_page w i = Inr (body i)"
    and "\<And>u. fetch_image w u = None"
  shows "fst (download_xkcd_loop w js st) = None \<and>
         filter is_page_request (requests (snd (download_xkcd_loop w js st)))
           = filter is_page_request (requests st) @ map GetPage js"
  using assms(1)
proof (induction js arbitrary: st)
  case Nil
  show ?case by simp
next
  case (Cons i js)
  have p: "get_page w i = Inr (body i)" using Cons.prems by simp
  have rest: "\<And>j. j \<in> set js \<Longrightarrow> get_page w j = Inr (body j)" using Cons.prems by simp
  note IH = Cons.IH[OF rest]
  show ?case
  proof (cases "re_search_comic (body i)")
    case None
    then show ?thesis
      using IH p by (simp add: Let_def)
  next
    case (Some m)
    then show ?thesis
      using IH p assms(2) by (simp add: Let_def)
  qed
qed

text \<open>
  When no request raises, the loop requests the page of every item of
  \<open>range(start, stop)\<close>, in order, whatever the pages contain: no answer stops it.
\<close>

lemma download_xkcd_requests_every_page:
  assumes "\<And>i. start \<le> i \<Longrightarrow> i < stop \<Longrightarrow> get_page w i = Inr (body i)"
    and "\<And>u. fetch_image w u = None"
  shows "fst (download_xkcd w start stop) = None \<and>
         filter is_page_request (requests (snd (download_xkcd w start stop)))
           = map GetPage [start..stop - 1] \<and>
         nat (stop - start) \<le> length (requests (snd (download_xkcd w start stop)))"
proof -
  have a: "get_page w i = Inr (body i)" if "i \<in> set [start..stop - 1]" for i
    using assms(1) that by simp
  have l: "fst (download_xkcd_loop w [start..stop - 1]
                  \<lparr>content = True, requests = [], files = []\<rparr>) = None \<and>
           filter is_page_request
             (requests (snd (download_xkcd_loop w [start..stop - 1]
                               \<lparr>content = True, requests = [], files = []\<rparr>)))
           = filter is_page_request (requests \<lparr>content = True, requests = [], files = []\<rparr>)
             @ map GetPage [start..stop - 1]"
    by (rule loop_requests_every_page) (use a assms(2) in auto)
  from l have f: "filter is_page_request (requests (snd (download_xkcd w start stop)))
             = map GetPage [start..stop - 1]"
    by (simp add: download_xkcd_def)
  have "length (filter is_page_request (requests (snd (download_xkcd w start stop))))
          \<le> length (requests (snd (download_xkcd w start stop)))"
    by (rule length_filter_le)
  then have "nat (stop - start) \<le> length (requests (snd (download_xkcd w start stop)))"
    unfolding f by simp
  with l f show ?thesis by (simp add: download_xkcd_def)
qed

text \<open>
  Claim C7. Every page answers "404 Not Found" and holds no comic image. The claim asks
  that the loop over \<open>range(1, 4)\<close> stop fetching after the first such answer; the code
  clears \<open>content\<close> and goes on to request the pages 1, 2 and 3, all \<open>stop - start\<close> of
  them.
\<close>

theorem not_found_does_not_stop_loop:
  "download_xkcd web_not_found 1 4 =
     (None, \<lparr>content = False, requests = [GetPage 1, GetPage 2, GetPage 3], files = []\<rparr>)"
  by code_simp

section \<open>Properties of the threaded downloader\<close>

lemma exec_reachable:
  "reachable w n start stop s \<Longrightarrow> exec w n ts s = Some s' \<Longrightarrow> reachable w n start stop s'"
proof (induction ts arbitrary: s)
  case Nil
  then show ?case by simp
next
  case (Cons t ts)
  then show ?case
    by (auto split: option.splits intro: reach_step)
qed

lemma items_inv_step:
  "step w n t s = Some s' \<Longrightarrow> items_inv start stop s \<Longrightarrow> items_inv start stop s'"
  by (cases t)
     (auto simp: items_inv_def step_main_def step_worker_def goto_def
           split: main_pc.splits list.splits worker_pc.splits if_splits sum.splits)

lemma items_inv_reachable:
  "reachable w n start stop s \<Longrightarrow> items_inv start stop s"
proof (induction rule: reachable.induct)
  case reach_init
  show ?case by (simp add: items_inv_def init_pool_def)
next
  case (reach_step s t s')
  then show ?case using items_inv_step by blast
qed

lemma distinct_submset:
  assumes "mset xs + m = mset ys" "distinct ys"
  shows "distinct xs"
proof -
  obtain zs where "m = mset zs" using ex_mset[of m] by auto
  with assms(1) have "mset (xs @ zs) = mset ys" by simp
  then have "distinct (xs @ zs)" using assms(2) by (metis mset_eq_imp_distinct_iff)
  then show ?thesis by simp
qed

text \<open>
  Claim C4. In every reachable state the items delivered by \<open>q.get()\<close> are pairwise
  different, so no item was delivered twice, to two workers or to one; and every
  delivered item is an item of \<open>range(start, stop)\<close>.
\<close>

theorem no_item_delivered_twice:
  assumes "reachable w nthreads start stop s"
  shows "distinct (map snd (claims s)) \<and>
         (\<forall>k k' i. (k, i) \<in> set (claims s) \<and> (k', i) \<in> set (claims s) \<longrightarrow> k = k') \<and>
         set (map snd (claims s)) \<subseteq> {start..<stop}"
proof -
  have inv: "mset (map snd (claims s)) + (mset (queue s) + mset (pending (main s)))
               = mset [start..stop - 1]"
    using items_inv_reachable[OF assms] by (simp add: items_inv_def add.assoc)
  have d: "distinct (map snd (claims s))"
    using distinct_submset[OF inv] by simp
  have inj: "inj_on snd (set (claims s))" using d by (simp add: distinct_map)
  have u: "\<forall>k k' i. (k, i) \<in> set (claims s) \<and> (k', i) \<in> set (claims s) \<longrightarrow> k = k'"
  proof (intro allI impI)
    fix k k' i
    assume a: "(k, i) \<in> set (claims s) \<and> (k', i) \<in> set (claims s)"
    have "(k, i) = (k', i)"
      by (rule inj_onD[OF inj]) (use a in auto)
    then show "k = k'" by simp
  qed
  have "set_mset (mset (map snd (claims s))) \<subseteq> set_mset (mset [start..stop - 1])"
    using inv by (metis mset_subset_eq_add_left set_mset_mono)
  then have "set (map snd (claims s)) \<subseteq> {start..<stop}" by auto
  with d u show ?thesis by blast
qed

text \<open>
  Two workers race for a queue of three items: both see it non-empty, then both call
  \<open>q.get()\<close>. Each receives an item of its own.
\<close>

theorem no_item_delivered_twice_witness:
  "reachable web_not_found 2 0 3
     \<lparr>queue = [2], unfinished = 3, main = MJoin, threads = [0, 1],
      workers = [\<lparr>running = True, pc = AtTaskDone 0\<rparr>, \<lparr>running = True, pc = AtTaskDone 1\<rparr>],
      claims = [(0, 0), (1, 1)], completed = []\<rparr> \<and>
   distinct (map snd [(0::nat, 0::int), (1, 1)])"
proof -
  let ?s = "\<lparr>queue = [2], unfinished = 3, main = MJoin, threads = [0, 1],
      workers = [\<lparr>running = True, pc = AtTaskDone 0\<rparr>, \<lparr>running = True, pc = AtTaskDone 1\<rparr>],
      claims = [(0::nat, 0::int), (1, 1)], completed = []\<rparr>"
  have "exec web_not_found 2
          [MainThread, MainThread, MainThread, MainThread, MainThread, MainThread, MainThread,
           Worker 0, Worker 1, Worker 0, Worker 1, Worker 0, Worker 1]
          (init_pool 0 3) = Some ?s"
    by code_simp
  then have r: "reachable web_not_found 2 0 3 ?s"
    by (rule exec_reachable[OF reach_init])
  have "distinct (map snd (claims ?s))"
    by (rule conjunct1[OF no_item_delivered_twice[OF r]])
  with r show ?thesis by simp
qed

lemma goto_fields [simp]:
  "queue (goto k p s) = queue s" "unfinished (goto k p s) = unfinished s"
  "main (goto k p s) = main s" "threads (goto k p s) = threads s"
  "claims (goto k p s) = claims s" "completed (goto k p s) = completed s"
  "length (workers (goto k p s)) = length (workers s)"
  by (simp_all add: goto_def)

text \<open>
  Claim C1. Two workers, the items 0 and 1, every page holding a comic. Both items are
  delivered and \<open>q.task_done()\<close> is called for both before either is processed, so
  \<open>q.join()\<close> lets the main thread through: the call has returned and no item has been
  processed, where the claim asks for \<open>item_count = 2\<close> processed items at that moment.
\<close>

theorem returns_before_items_processed:
  "exec web_comics 2
     [MainThread, MainThread, MainThread, MainThread, MainThread, MainThread,
      Worker 0, Worker 0, Worker 0, Worker 1, Worker 1, Worker 1, Worker 0, Worker 1,
      MainThread, MainThread, MainThread, MainThread]
     (init_pool 0 2)
   = Some \<lparr>queue = [], unfinished = 0, main = MReturned, threads = [],
            workers = [\<lparr>running = True, pc = Processing 0\<rparr>,
                       \<lparr>running = True, pc = Processing 1\<rparr>],
            claims = [(0, 0), (1, 1)], completed = []\<rparr>"
  by code_simp

text \<open>
  Claim C2. One worker, one item. The call returns while the worker is still in the loop
  body with item 0. The worker then finishes the loop body (its \<open>rd.read()\<close> comes back
  empty, so it saves and prints nothing) and finds the queue empty, and from there on it
  circles between \<open>while self.running\<close> and \<open>while not q.empty()\<close>: two steps lead back
  to the same state, and the thread never ends.
\<close>

theorem returns_while_worker_runs:
  "exec web_comics 1
     [MainThread, MainThread, MainThread, MainThread,
      Worker 0, Worker 0, Worker 0, Worker 0, MainThread, MainThread, MainThread]
     (init_pool 0 1)
   = Some \<lparr>queue = [], unfinished = 0, main = MReturned, threads = [],
            workers = [\<lparr>running = True, pc = Processing 0\<rparr>],
            claims = [(0, 0)], completed = []\<rparr> \<and>
   exec web_comics 1 [Worker 0, Worker 0]
     \<lparr>queue = [], unfinished = 0, main = MReturned, threads = [],
      workers = [\<lparr>running = True, pc = Processing 0\<rparr>],
      claims = [(0, 0)], completed = []\<rparr>
   = Some \<lparr>queue = [], unfinished = 0, main = MReturned, threads = [],
            workers = [\<lparr>running = True, pc = RunLoop\<rparr>],
            claims = [(0, 0)], completed = [(0, 0, NoEffect)]\<rparr> \<and>
   exec web_comics 1 [Worker 0, Worker 0]
     \<lparr>queue = [], unfinished = 0, main = MReturned, threads = [],
      workers = [\<lparr>running = True, pc = RunLoop\<rparr>],
      claims = [(0, 0)], completed = [(0, 0, NoEffect)]\<rparr>
   = Some \<lparr>queue = [], unfinished = 0, main = MReturned, threads = [],
            workers = [\<lparr>running = True, pc = RunLoop\<rparr>],
            claims = [(0, 0)], completed = [(0, 0, NoEffect)]\<rparr>"
  by code_simp

lemma goto_other: "j \<noteq> k \<Longrightarrow> workers (goto k p s) ! j = workers s ! j"
  by (simp add: goto_def)

lemma main_step_after_death:
  assumes "k < length (workers s)"
  shows "step_main n (goto k p s) = map_option (goto k p) (step_main n s)"
  using assms
  by (auto simp: step_main_def goto_def list_update_append1 nth_append
           split: main_pc.splits list.splits)

lemma worker_step_after_death:
  assumes "k < length (workers s)" and "j \<noteq> k"
  shows "step_worker w j (goto k p s) = map_option (goto k p) (step_worker w j s)"
  using assms
  by (auto simp: step_worker_def goto_def list_update_swap
           split: worker_pc.splits list.splits sum.splits)

lemma step_keeps_workers:
  "step w n t s = Some s' \<Longrightarrow> length (workers s) \<le> length (workers s')"
  by (cases t)
     (auto simp: step_main_def step_worker_def
           split: main_pc.splits list.splits worker_pc.splits if_splits sum.splits)

lemma step_after_death:
  assumes "k < length (workers s)" and "t \<noteq> Worker k"
  shows "step w n t (goto k p s) = map_option (goto k p) (step w n t s)"
proof (cases t)
  case MainThread
  then show ?thesis using main_step_after_death[OF assms(1)] by simp
next
  case (Worker j)
  with assms(2) have "j \<noteq> k" by simp
  then show ?thesis using worker_step_after_death[OF assms(1)] Worker by simp
qed

lemma exec_after_death:
  "k < length (workers s) \<Longrightarrow> Worker k \<notin> set ts \<Longrightarrow>
     exec w n ts (goto k p s) = map_option (goto k p) (exec w n ts s)"
proof (induction ts arbitrary: s)
  case Nil
  show ?case by simp
next
  case (Cons t ts)
  then have t: "t \<noteq> Worker k" and ts: "Worker k \<notin> set ts" by auto
  note st = step_after_death[OF Cons.prems(1) t, of w n p]
  show ?case
  proof (cases "step w n t s")
    case None
    with st show ?thesis by simp
  next
    case (Some s1)
    then have "k < length (workers s1)"
      using step_keeps_workers[of w n t s s1] Cons.prems(1) by simp
    from Cons.IH[OF this ts] st Some show ?thesis by simp
  qed
qed

lemma no_workers_step:
  "n \<le> 0 \<Longrightarrow> step w n t s = Some s' \<Longrightarrow> no_workers_inv s \<Longrightarrow> no_workers_inv s'"
  by (cases t)
     (auto simp: no_workers_inv_def step_main_def step_worker_def
           split: main_pc.splits list.splits if_splits)

lemma no_workers_reachable:
  "reachable w n start stop s \<Longrightarrow> n \<le> 0 \<Longrightarrow> no_workers_inv s"
proof (induction rule: reachable.induct)
  case reach_init
  show ?case by (simp add: no_workers_inv_def init_pool_def)
next
  case (reach_step s t s')
  then show ?case using no_workers_step by blast
qed

lemma join_blocked_step:
  "n \<le> 0 \<Longrightarrow> step w n t s = Some s' \<Longrightarrow> join_blocked_inv s \<Longrightarrow> join_blocked_inv s'"
  by (cases t)
     (auto simp: join_blocked_inv_def step_main_def step_worker_def
           split: main_pc.splits list.splits if_splits)

lemma join_blocked_reachable:
  "reachable w n start stop s \<Longrightarrow> n \<le> 0 \<Longrightarrow> start < stop \<Longrightarrow> join_blocked_inv s"
proof (induction rule: reachable.induct)
  case reach_init
  then show ?case by (simp add: join_blocked_inv_def init_pool_def)
next
  case (reach_step s t s')
  then show ?case using join_blocked_step by blast
qed

lemma empty_batch_main_step:
  "step_main n s = Some s' \<Longrightarrow> empty_batch_inv n s \<Longrightarrow> empty_batch_inv n s'"
  by (auto simp: empty_batch_inv_def step_main_def nth_append idle_pc_def
           split: main_pc.splits list.splits if_splits)

lemma empty_batch_worker_step:
  assumes "step_worker w k s = Some s'" and "empty_batch_inv n s"
  shows "empty_batch_inv n s'"
proof -
  from assms(1) have k: "k < length (workers s)"
    by (auto simp: step_worker_def split: if_splits)
  with assms(2) have idle: "idle_pc (pc (workers s ! k))"
    by (simp add: empty_batch_inv_def)
  have q: "queue s = []" using assms(2) by (simp add: empty_batch_inv_def)
  from idle k q assms(1) obtain p where s': "s' = goto k p s" and p: "idle_pc p"
    by (auto simp: step_worker_def idle_pc_def split: if_splits)
  show ?thesis
    using assms(2) p k unfolding s' empty_batch_inv_def
    by (auto simp: goto_def nth_list_update split: main_pc.splits)
qed

lemma empty_batch_reachable:
  "reachable w n start stop s \<Longrightarrow> stop \<le> start \<Longrightarrow> empty_batch_inv n s"
proof (induction rule: reachable.induct)
  case reach_init
  then show ?case by (simp add: empty_batch_inv_def init_pool_def)
next
  case (reach_step s t s')
  then show ?case
    by (cases t) (auto intro: empty_batch_main_step empty_batch_worker_step)
qed

lemma exec_append:
  "exec w n (xs @ ys) s = (case exec w n xs s of None \<Rightarrow> None | Some s' \<Rightarrow> exec w n ys s')"
  by (induction xs arbitrary: s) (auto split: option.splits)

lemma start_phase:
  "exec w n (replicate (length ks) MainThread)
     \<lparr>queue = q, unfinished = u, main = MStart ks, threads = ts, workers = ws,
      claims = c, completed = d\<rparr>
   = Some \<lparr>queue = q, unfinished = u, main = MStart [],
            threads = ts @ [length ws..<length ws + length ks],
            workers = ws @ replicate (length ks) \<lparr>running = True, pc = RunLoop\<rparr>,
            claims = c, completed = d\<rparr>"
proof (induction ks arbitrary: ts ws)
  case Nil
  show ?case by simp
next
  case (Cons k ks)
  let ?new = "\<lparr>running = True, pc = RunLoop\<rparr>"
  have "exec w n (replicate (length (k # ks)) MainThread)
          \<lparr>queue = q, unfinished = u, main = MStart (k # ks), threads = ts, workers = ws,
           claims = c, completed = d\<rparr>
        = exec w n (replicate (length ks) MainThread)
          \<lparr>queue = q, unfinished = u, main = MStart ks, threads = ts @ [length ws],
           workers = ws @ [?new], claims = c, completed = d\<rparr>"
    by (simp add: step_main_def)
  also have "\<dots> = Some \<lparr>queue = q, unfinished = u, main = MStart [],
            threads = (ts @ [length ws]) @ [length (ws @ [?new])..<length (ws @ [?new]) + length ks],
            workers = (ws @ [?new]) @ replicate (length ks) ?new,
            claims = c, completed = d\<rparr>"
    by (rule Cons.IH)
  also have "\<dots> = Some \<lparr>queue = q, unfinished = u, main = MStart [],
            threads = ts @ [length ws..<length ws + length (k # ks)],
            workers = ws @ replicate (length (k # ks)) ?new,
            claims = c, completed = d\<rparr>"
    by (simp del: upt_Suc add: upt_conv_Cons)
  finally show ?case .
qed

lemma del_phase:
  "exec w n (replicate (length ts) MainThread)
     \<lparr>queue = q, unfinished = u, main = MDel, threads = ts, workers = ws,
      claims = c, completed = d\<rparr>
   = Some \<lparr>queue = q, unfinished = u, main = MDel, threads = [], workers = ws,
            claims = c, completed = d\<rparr>"
proof (induction ts rule: rev_induct)
  case Nil
  show ?case by simp
next
  case (snoc t ts)
  then show ?case by (simp add: step_main_def)
qed

lemma main_schedule_split:
  "replicate (2 * m + 4) MainThread
     = [MainThread] @ replicate m MainThread @ [MainThread, MainThread]
       @ replicate m MainThread @ [MainThread]"
proof -
  have "2 * m + 4 = 1 + (m + (2 + (m + 1)))" by simp
  then have "replicate (2 * m + 4) MainThread = replicate (1 + (m + (2 + (m + 1)))) MainThread"
    by (rule arg_cong)
  also have "\<dots> = replicate 1 MainThread @ replicate m MainThread @ replicate 2 MainThread
        @ replicate m MainThread @ replicate 1 MainThread"
    by (simp only: replicate_add)
  also have "\<dots> = [MainThread] @ replicate m MainThread @ [MainThread, MainThread]
        @ replicate m MainThread @ [MainThread]"
    by (simp add: numeral_2_eq_2)
  finally show ?thesis .
qed

lemma empty_batch_returns:
  assumes "stop \<le> start"
  shows "exec w n (replicate (2 * nat n + 4) MainThread) (init_pool start stop)
         = Some \<lparr>queue = [], unfinished = 0, main = MReturned, threads = [],
                  workers = replicate (nat n) \<lparr>running = True, pc = RunLoop\<rparr>,
                  claims = [], completed = []\<rparr>"
proof -
  let ?new = "\<lparr>running = True, pc = RunLoop\<rparr>"
  have sched: "replicate (2 * nat n + 4) MainThread
      = [MainThread] @ replicate (nat n) MainThread @ [MainThread, MainThread]
        @ replicate (nat n) MainThread @ [MainThread]"
    by (rule main_schedule_split)
  have i: "init_pool start stop = \<lparr>queue = [], unfinished = 0, main = MPut [], threads = [],
      workers = [], claims = [], completed = []\<rparr>"
    using assms by (simp add: init_pool_def)
  have a: "exec w n [MainThread] (init_pool start stop)
     = Some \<lparr>queue = [], unfinished = 0, main = MStart [0..<nat n], threads = [],
      workers = [], claims = [], completed = []\<rparr>"
    by (simp add: i step_main_def)
  have b: "exec w n (replicate (nat n) MainThread)
      \<lparr>queue = [], unfinished = 0, main = MStart [0..<nat n], threads = [],
        workers = [], claims = [], completed = []\<rparr>
     = Some \<lparr>queue = [], unfinished = 0, main = MStart [], threads = [0..<nat n],
        workers = replicate (nat n) ?new, claims = [], completed = []\<rparr>"
    using start_phase[of w n "[0..<nat n]" "[]" 0 "[]" "[]" "[]" "[]"] by simp
  have c: "exec w n [MainThread, MainThread]
      \<lparr>queue = [], unfinished = 0, main = MStart [], threads = [0..<nat n],
        workers = replicate (nat n) ?new, claims = [], completed = []\<rparr>
     = Some \<lparr>queue = [], unfinished = 0, main = MDel, threads = [0..<nat n],
        workers = replicate (nat n) ?new, claims = [], completed = []\<rparr>"
    by (simp add: step_main_def)
  have d: "exec w n (replicate (nat n) MainThread)
      \<lparr>queue = [], unfinished = 0, main = MDel, threads = [0..<nat n],
        workers = replicate (nat n) ?new, claims = [], completed = []\<rparr>
     = Some \<lparr>queue = [], unfinished = 0, main = MDel, threads = [],
        workers = replicate (nat n) ?new, claims = [], completed = []\<rparr>"
    using del_phase[of w n "[0..<nat n]" "[]" 0 "replicate (nat n) ?new" "[]" "[]"] by simp
  have e: "exec w n [MainThread]
      \<lparr>queue = [], unfinished = 0, main = MDel, threads = [],
        workers = replicate (nat n) ?new, claims = [], completed = []\<rparr>
     = Some \<lparr>queue = [], unfinished = 0, main = MReturned, threads = [],
        workers = replicate (nat n) ?new, claims = [], completed = []\<rparr>"
    by (simp add: step_main_def)
  show ?thesis
    unfolding sched by (simp only: exec_append a b c d e option.case)
qed

lemma empty_batch_main_moves:
  "empty_batch_inv n s \<Longrightarrow> main s \<noteq> MReturned \<Longrightarrow> step_main n s \<noteq> None"
  by (auto simp: empty_batch_inv_def step_main_def split: main_pc.splits list.splits)

text \<open>
  Claim C6, as the code has it. Nothing validates the arguments and no configuration
  makes the call fail. With \<open>nthreads \<le> 0\<close> no thread is ever started and no item is ever
  delivered or processed; if the range is non-empty the call then never returns. With an
  empty range (\<open>stop \<le> start\<close>) nothing is ever queued, delivered or processed, at most
  \<open>nthreads\<close> threads are started, the main thread is never blocked, and the schedule in
  which only the main thread runs returns with all \<open>nthreads\<close> threads started.
\<close>

theorem malformed_configuration_not_rejected:
  assumes "reachable w nthreads start stop s"
  shows "(nthreads \<le> 0 \<longrightarrow>
            workers s = [] \<and> claims s = [] \<and> completed s = [] \<and>
            (start < stop \<longrightarrow> main s \<noteq> MReturned)) \<and>
         (stop \<le> start \<longrightarrow>
            queue s = [] \<and> claims s = [] \<and> completed s = [] \<and>
            length (workers s) \<le> nat nthreads \<and>
            (main s \<noteq> MReturned \<longrightarrow> step w nthreads MainThread s \<noteq> None) \<and>
            exec w nthreads (replicate (2 * nat nthreads + 4) MainThread) (init_pool start stop)
              = Some \<lparr>queue = [], unfinished = 0, main = MReturned, threads = [],
                       workers = replicate (nat nthreads) \<lparr>running = True, pc = RunLoop\<rparr>,
                       claims = [], completed = []\<rparr>)"
proof (intro conjI impI)
  assume n: "nthreads \<le> 0"
  from no_workers_reachable[OF assms n]
  show "workers s = []" "claims s = []" "completed s = []"
    by (simp_all add: no_workers_inv_def)
  assume "start < stop"
  from join_blocked_reachable[OF assms n this]
  show "main s \<noteq> MReturned" by (auto simp: join_blocked_inv_def)
next
  assume e: "stop \<le> start"
  note inv = empty_batch_reachable[OF assms e]
  from inv show "queue s = []" "claims s = []" "completed s = []"
    by (simp_all add: empty_batch_inv_def)
  from inv show "length (workers s) \<le> nat nthreads"
    by (auto simp: empty_batch_inv_def split: main_pc.splits)
  show "exec w nthreads (replicate (2 * nat nthreads + 4) MainThread) (init_pool start stop)
              = Some \<lparr>queue = [], unfinished = 0, main = MReturned, threads = [],
                       workers = replicate (nat nthreads) \<lparr>running = True, pc = RunLoop\<rparr>,
                       claims = [], completed = []\<rparr>"
    by (rule empty_batch_returns[OF e])
  assume "main s \<noteq> MReturned"
  with inv show "step w nthreads MainThread s \<noteq> None"
    using empty_batch_main_moves by simp
qed

theorem malformed_configuration_not_rejected_witness:
  "reachable web_not_found 0 0 1
     \<lparr>queue = [0], unfinished = 1, main = MJoin, threads = [], workers = [],
      claims = [], completed = []\<rparr> \<and>
   reachable web_not_found 2 5 3
     \<lparr>queue = [], unfinished = 0, main = MStart [1], threads = [0],
      workers = [\<lparr>running = True, pc = CheckEmpty\<rparr>], claims = [], completed = []\<rparr> \<and>
   step web_not_found 2 MainThread
     \<lparr>queue = [], unfinished = 0, main = MStart [1], threads = [0],
      workers = [\<lparr>running = True, pc = CheckEmpty\<rparr>], claims = [], completed = []\<rparr> \<noteq> None \<and>
   exec web_not_found 2 (replicate (2 * nat 2 + 4) MainThread) (init_pool 5 3)
   = Some \<lparr>queue = [], unfinished = 0, main = MReturned, threads = [],
            workers = replicate (nat 2) \<lparr>running = True, pc = RunLoop\<rparr>,
            claims = [], completed = []\<rparr>"
proof -
  let ?a = "\<lparr>queue = [0], unfinished = 1, main = MJoin, threads = [], workers = [],
      claims = [], completed = []\<rparr>"
  let ?b = "\<lparr>queue = [], unfinished = 0, main = MStart [1], threads = [0],
      workers = [\<lparr>running = True, pc = CheckEmpty\<rparr>], claims = [], completed = []\<rparr>"
  have "exec web_not_found 0 [MainThread, MainThread, MainThread] (init_pool 0 1) = Some ?a"
    by code_simp
  then have ra: "reachable web_not_found 0 0 1 ?a"
    by (rule exec_reachable[OF reach_init])
  have "exec web_not_found 2 [MainThread, MainThread, Worker 0] (init_pool 5 3) = Some ?b"
    by code_simp
  then have rb: "reachable web_not_found 2 5 3 ?b"
    by (rule exec_reachable[OF reach_init])
  show ?thesis
    using ra rb malformed_configuration_not_rejected[OF ra]
      malformed_configuration_not_rejected[OF rb]
    by simp
qed

text \<open>
  Claim C6 as stated fails. With \<open>start = 5\<close>, \<open>stop = 3\<close> and two threads the call starts
  both threads and returns; with no thread and no item it returns; with no thread and one
  item it neither fails nor returns, it waits at \<open>q.join()\<close>.
\<close>

theorem malformed_configuration_runs:
  "exec web_not_found 2
     [MainThread, MainThread, MainThread, MainThread,
      MainThread, MainThread, MainThread, MainThread]
     (init_pool 5 3)
   = Some \<lparr>queue = [], unfinished = 0, main = MReturned, threads = [],
            workers = [\<lparr>running = True, pc = RunLoop\<rparr>, \<lparr>running = True, pc = RunLoop\<rparr>],
            claims = [], completed = []\<rparr> \<and>
   exec web_not_found 0 [MainThread, MainThread, MainThread, MainThread] (init_pool 0 0)
   = Some \<lparr>queue = [], unfinished = 0, main = MReturned, threads = [], workers = [],
            claims = [], completed = []\<rparr> \<and>
   exec web_not_found 0 [MainThread, MainThread, MainThread] (init_pool 0 1)
   = Some \<lparr>queue = [0], unfinished = 1, main = MJoin, threads = [], workers = [],
            claims = [], completed = []\<rparr> \<and>
   step web_not_found 0 MainThread
     \<lparr>queue = [0], unfinished = 1, main = MJoin, threads = [], workers = [],
      claims = [], completed = []\<rparr> = None"
  by code_simp

lemma never_stopped_step:
  "step w n t s = Some s' \<Longrightarrow> never_stopped s \<Longrightarrow> never_stopped s'"
proof (cases t)
  case MainThread
  assume "step w n t s = Some s'" "never_stopped s"
  with MainThread show ?thesis
    by (auto simp: never_stopped_def step_main_def nth_append
             split: main_pc.splits list.splits if_splits)
next
  case (Worker k)
  assume a: "step w n t s = Some s'" and i: "never_stopped s"
  from a Worker have k: "k < length (workers s)"
    by (auto simp: step_worker_def split: if_splits)
  with i have r: "running (workers s ! k)" by (simp add: never_stopped_def)
  from a Worker k r obtain p u where "s' = goto k p u" "workers u = workers s" "p \<noteq> Terminated"
    by (auto simp: step_worker_def split: worker_pc.splits list.splits if_splits sum.splits)
  with i k show ?thesis
    by (auto simp: never_stopped_def goto_def nth_list_update)
qed

lemma never_stopped_reachable:
  "reachable w n start stop s \<Longrightarrow> never_stopped s"
proof (induction rule: reachable.induct)
  case reach_init
  show ?case by (simp add: never_stopped_def init_pool_def)
next
  case (reach_step s t s')
  then show ?case using never_stopped_step by blast
qed

lemma filter_count_update:
  "k < length xs \<Longrightarrow>
     length (filter P (xs[k := y])) + (if P (xs ! k) then 1 else 0)
       = length (filter P xs) + (if P y then 1 else 0)"
proof (induction xs arbitrary: k)
  case Nil
  then show ?case by simp
next
  case (Cons x xs)
  then show ?case by (cases k) auto
qed

lemma atd_goto:
  assumes "k < length (workers s)"
  shows "length (filter (\<lambda>x. at_task_done (pc x)) (workers (goto k p s)))
           + (if at_task_done (pc (workers s ! k)) then 1 else 0)
         = length (filter (\<lambda>x. at_task_done (pc x)) (workers s))
           + (if at_task_done p then 1 else 0)"
  using filter_count_update[OF assms, of "\<lambda>x. at_task_done (pc x)" "(workers s ! k)\<lparr>pc := p\<rparr>"]
  by (simp add: goto_def)

lemma atd_positive:
  assumes "k < length xs" and "P (xs ! k)"
  shows "0 < length (filter P xs)"
proof -
  have "xs ! k \<in> set (filter P xs)" using assms by simp
  then show ?thesis by (metis length_pos_if_in_set)
qed

lemma counter_inv_main_step:
  "step_main n s = Some s' \<Longrightarrow> counter_inv s \<Longrightarrow> counter_inv s'"
  by (auto simp: counter_inv_def step_main_def
           split: main_pc.splits list.splits if_splits)

lemma counter_inv_worker_step:
  assumes "step_worker w k s = Some s'" and "counter_inv s"
  shows "counter_inv s'"
proof -
  let ?P = "\<lambda>x. at_task_done (pc x)"
  from assms(1) have k: "k < length (workers s)"
    by (auto simp: step_worker_def split: if_splits)
  note upd = atd_goto[OF k]
  from assms(2) have c: "unfinished s = length (queue s) + length (filter ?P (workers s))"
    and m: "main s = MDel \<or> main s = MReturned \<longrightarrow> unfinished s = 0"
    unfolding counter_inv_def by blast+
  show ?thesis
  proof (cases "pc (workers s ! k)")
    case RunLoop
    with assms(1) k have "s' = goto k (if running (workers s ! k) then CheckEmpty else Terminated) s"
      by (simp add: step_worker_def)
    with c m upd[of "if running (workers s ! k) then CheckEmpty else Terminated"] RunLoop
    show ?thesis by (auto simp: counter_inv_def)
  next
    case CheckEmpty
    with assms(1) k have "s' = goto k (if queue s = [] then RunLoop else AtGet) s"
      by (simp add: step_worker_def)
    with c m upd[of "if queue s = [] then RunLoop else AtGet"] CheckEmpty
    show ?thesis by (auto simp: counter_inv_def)
  next
    case AtGet
    with assms(1) k obtain i rest where q: "queue s = i # rest"
      and s': "s' = goto k (AtTaskDone i) (s\<lparr>queue := rest, claims := claims s @ [(k, i)]\<rparr>)"
      by (auto simp: step_worker_def split: list.splits)
    have "length (filter ?P (workers s')) = Suc (length (filter ?P (workers s)))"
      using upd[of "AtTaskDone i"] AtGet by (simp add: s' goto_def)
    with c m q show ?thesis by (simp add: counter_inv_def s' goto_def)
  next
    case (AtTaskDone i)
    then have "0 < length (filter ?P (workers s))"
      using atd_positive[OF k, of ?P] by simp
    with c have pos: "0 < unfinished s" by simp
    with assms(1) k AtTaskDone
    have s': "s' = goto k (Processing i) (s\<lparr>unfinished := unfinished s - 1\<rparr>)"
      by (simp add: step_worker_def)
    have "Suc (length (filter ?P (workers s'))) = length (filter ?P (workers s))"
      using upd[of "Processing i"] AtTaskDone by (simp add: s' goto_def)
    with c m pos show ?thesis by (auto simp: counter_inv_def s' goto_def)
  next
    case (Processing i)
    with assms(1) k obtain p u where s': "s' = goto k p u" and u: "workers u = workers s"
      "queue u = queue s" "unfinished u = unfinished s" "main u = main s"
      and p: "\<not> at_task_done p"
      by (auto simp: step_worker_def split: sum.splits)
    have "length (filter ?P (workers s')) = length (filter ?P (workers s))"
      using atd_goto[of k u p] k u p Processing by (simp add: s')
    with c m u show ?thesis by (simp add: counter_inv_def s' goto_def)
  next
    case (Dead i e)
    with assms(1) k show ?thesis by (simp add: step_worker_def)
  next
    case Terminated
    with assms(1) k show ?thesis by (simp add: step_worker_def)
  qed
qed

lemma counter_inv_reachable:
  "reachable w n start stop s \<Longrightarrow> counter_inv s"
proof (induction rule: reachable.induct)
  case reach_init
  show ?case by (simp add: counter_inv_def init_pool_def)
next
  case (reach_step s t s')
  then show ?case
    by (cases t) (auto intro: counter_inv_main_step counter_inv_worker_step)
qed

lemma concat_update_mset:
  "k < length xs \<Longrightarrow>
     mset (concat (map f (xs[k := y]))) + mset (f (xs ! k))
       = mset (concat (map f xs)) + mset (f y)"
proof (induction xs arbitrary: k)
  case Nil
  then show ?case by simp
next
  case (Cons x xs)
  then show ?case by (cases k) (auto simp: add.assoc add.left_commute)
qed

lemma held_goto:
  assumes "k < length (workers s)"
  shows "mset (held (goto k p s)) + mset (holding (pc (workers s ! k)))
           = mset (held s) + mset (holding p)"
  using concat_update_mset[OF assms, of "\<lambda>x. holding (pc x)" "(workers s ! k)\<lparr>pc := p\<rparr>"]
  by (simp add: held_def goto_def)

lemma work_inv_main_step:
  "step_main n s = Some s' \<Longrightarrow> work_inv s \<Longrightarrow> work_inv s'"
  by (auto simp: work_inv_def held_def step_main_def nth_append
           split: main_pc.splits list.splits if_splits)

lemma work_inv_worker_step:
  assumes "step_worker w k s = Some s'" and "work_inv s"
  shows "work_inv s'"
proof -
  from assms(1) have k: "k < length (workers s)"
    by (auto simp: step_worker_def split: if_splits)
  from assms(2) have
    a: "mset (map snd (claims s)) = mset (map (\<lambda>(k, i, e). i) (completed s)) + mset (held s)"
    and b: "\<forall>(k, i, e) \<in> set (completed s). (k, i) \<in> set (claims s)"
    and c: "\<forall>j < length (workers s). \<forall>i \<in> set (holding (pc (workers s ! j))).
              (j, i) \<in> set (claims s)"
    unfolding work_inv_def by blast+
  have same: "work_inv (goto k p s)" if "holding p = holding (pc (workers s ! k))" for p
  proof -
    have "mset (held (goto k p s)) = mset (held s)"
      using held_goto[OF k, of p] that by simp
    moreover have "\<forall>j < length (workers (goto k p s)).
        \<forall>i \<in> set (holding (pc (workers (goto k p s) ! j))). (j, i) \<in> set (claims (goto k p s))"
      using c that k by (auto simp: goto_def nth_list_update)
    ultimately show ?thesis using a b by (simp add: work_inv_def goto_def)
  qed
  show ?thesis
  proof (cases "pc (workers s ! k)")
    case RunLoop
    with assms(1) k have "s' = goto k (if running (workers s ! k) then CheckEmpty else Terminated) s"
      by (simp add: step_worker_def)
    with same RunLoop show ?thesis by simp
  next
    case CheckEmpty
    with assms(1) k have "s' = goto k (if queue s = [] then RunLoop else AtGet) s"
      by (simp add: step_worker_def)
    with same CheckEmpty show ?thesis by simp
  next
    case AtGet
    with assms(1) k obtain i rest where q: "queue s = i # rest"
      and s': "s' = goto k (AtTaskDone i) (s\<lparr>queue := rest, claims := claims s @ [(k, i)]\<rparr>)"
      by (auto simp: step_worker_def split: list.splits)
    have h: "mset (held s') = mset (held s) + {#i#}"
      using held_goto[OF k, of "AtTaskDone i"] AtGet by (simp add: s' held_def goto_def)
    have c': "\<forall>j < length (workers s'). \<forall>x \<in> set (holding (pc (workers s' ! j))).
                (j, x) \<in> set (claims s')"
      using c k by (auto simp: s' goto_def nth_list_update)
    show ?thesis
      using a b h c' unfolding work_inv_def by (auto simp: s' goto_def)
  next
    case (AtTaskDone i)
    with assms(1) k have "s' = goto k (Dead i ValueError) s \<or>
        s' = goto k (Processing i) (s\<lparr>unfinished := unfinished s - 1\<rparr>)"
      by (auto simp: step_worker_def split: if_splits)
    moreover have "work_inv (goto k (Dead i ValueError) s)"
      using same AtTaskDone by simp
    moreover have "work_inv (goto k (Processing i) (s\<lparr>unfinished := unfinished s - 1\<rparr>))"
      using same[of "Processing i"] AtTaskDone by (simp add: work_inv_def held_def goto_def)
    ultimately show ?thesis by blast
  next
    case (Processing i)
    show ?thesis
    proof (cases "download_one w i")
      case (Inl e)
      with assms(1) k Processing have "s' = goto k (Dead i e) s"
        by (simp add: step_worker_def)
      with same Processing show ?thesis by simp
    next
      case (Inr eff)
      with assms(1) k Processing
      have s': "s' = goto k CheckEmpty (s\<lparr>completed := completed s @ [(k, i, eff)]\<rparr>)"
        by (simp add: step_worker_def)
      have h: "mset (held s') + {#i#} = mset (held s)"
        using held_goto[OF k, of CheckEmpty] Processing by (simp add: s' held_def goto_def)
      have ki: "(k, i) \<in> set (claims s)" using c k Processing by auto
      have c': "\<forall>j < length (workers s'). \<forall>x \<in> set (holding (pc (workers s' ! j))).
                (j, x) \<in> set (claims s')"
        using c k by (auto simp: s' goto_def nth_list_update)
      have a': "mset (map snd (claims s'))
                  = mset (map (\<lambda>(k, i, e). i) (completed s')) + mset (held s')"
        using a h by (simp add: s' goto_def add.assoc[symmetric])
      show ?thesis
        using a' b ki c' unfolding work_inv_def by (auto simp: s' goto_def)
    qed
  next
    case (Dead i e)
    with assms(1) k show ?thesis by (simp add: step_worker_def)
  next
    case Terminated
    with assms(1) k show ?thesis by (simp add: step_worker_def)
  qed
qed

lemma work_inv_reachable:
  "reachable w n start stop s \<Longrightarrow> work_inv s"
proof (induction rule: reachable.induct)
  case reach_init
  show ?case by (simp add: work_inv_def held_def init_pool_def)
next
  case (reach_step s t s')
  then show ?case
    by (cases t) (auto intro: work_inv_main_step work_inv_worker_step)
qed

text \<open>
  No thread ever leaves \<open>DownloadThread.run\<close>: nothing calls \<open>stop()\<close>, so \<open>running\<close> stays
  set in every reachable state.
\<close>

lemma workers_never_terminate:
  assumes "reachable w nthreads start stop s" and "j < length (workers s)"
  shows "running (workers s ! j) \<and> pc (workers s ! j) \<noteq> Terminated"
  using never_stopped_reachable[OF assms(1)] assms(2) by (simp add: never_stopped_def)

text \<open>
  Once the main thread is past \<open>q.join()\<close> the queue is empty and every item of
  \<open>range(start, stop)\<close> has been delivered, each exactly once.
\<close>

lemma returned_means_all_delivered:
  assumes "reachable w nthreads start stop s" and "main s = MDel \<or> main s = MReturned"
  shows "queue s = [] \<and> mset (map snd (claims s)) = mset [start..stop - 1]"
proof -
  have "unfinished s = 0"
    using counter_inv_reachable[OF assms(1)] assms(2) unfolding counter_inv_def by blast
  then have q: "queue s = []"
    using counter_inv_reachable[OF assms(1)] unfolding counter_inv_def by simp
  have "pending (main s) = []" using assms(2) by auto
  with q show ?thesis
    using items_inv_reachable[OF assms(1)] by (simp add: items_inv_def)
qed

text \<open>
  No item is processed twice, and an item is processed only by the worker it was
  delivered to.
\<close>

lemma each_item_processed_at_most_once:
  assumes "reachable w nthreads start stop s"
  shows "distinct (map (\<lambda>(k, i, e). i) (completed s)) \<and>
         (\<forall>(k, i, e) \<in> set (completed s). (k, i) \<in> set (claims s))"
proof -
  have inv: "mset (map snd (claims s)) + (mset (queue s) + mset (pending (main s)))
               = mset [start..stop - 1]"
    using items_inv_reachable[OF assms] by (simp add: items_inv_def add.assoc)
  have d: "distinct (map snd (claims s))"
    using distinct_submset[OF inv] by simp
  have "mset (map (\<lambda>(k, i, e). i) (completed s)) + mset (held s) = mset (map snd (claims s))"
    using work_inv_reachable[OF assms] unfolding work_inv_def by simp
  then have "distinct (map (\<lambda>(k, i, e). i) (completed s))"
    using d by (rule distinct_submset)
  then show ?thesis
    using work_inv_reachable[OF assms] unfolding work_inv_def by blast
qed

text \<open>
  Whatever the page holds, the worker's loop body saves and prints nothing: it searches
  the empty string. It raises exactly when the request for the page raises.
\<close>

lemma download_one_eq:
  "download_one w i = (case get_page w i of Inl e \<Rightarrow> Inl e | Inr body \<Rightarrow> Inr NoEffect)"
  by (simp add: download_one_def rd_read_def match_here_def split: sum.splits)

text \<open>
  What is needed for claim C3. A thread is ended only by its own item's exception; two
  threads never hold the same item; and every held item is one of \<open>range(start, stop)\<close>.
\<close>

lemma dead_inv_step:
  assumes "step w n t s = Some s'" and "counter_inv s" and "dead_inv w s"
  shows "dead_inv w s'"
proof (cases t)
  case MainThread
  with assms(1,3) show ?thesis
    by (auto simp: dead_inv_def step_main_def nth_append
             split: main_pc.splits list.splits if_splits)
next
  case (Worker k)
  with assms(1) have st: "step_worker w k s = Some s'" by simp
  then have k: "k < length (workers s)"
    by (auto simp: step_worker_def split: if_splits)
  have pos: "0 < unfinished s" if "pc (workers s ! k) = AtTaskDone i" for i
  proof -
    have "0 < length (filter (\<lambda>x. at_task_done (pc x)) (workers s))"
      using atd_positive[OF k, of "\<lambda>x. at_task_done (pc x)"] that by simp
    with assms(2) show ?thesis by (simp add: counter_inv_def)
  qed
  from st k pos obtain p u where s': "s' = goto k p u" and u: "workers u = workers s"
    and p: "\<forall>i e. p = Dead i e \<longrightarrow> download_one w i = Inl e"
    by (auto simp: step_worker_def split: worker_pc.splits list.splits if_splits sum.splits)
  show ?thesis
    unfolding dead_inv_def
  proof (intro allI impI)
    fix m i e
    assume m: "m < length (workers s')" and d: "pc (workers s' ! m) = Dead i e"
    show "download_one w i = Inl e"
    proof (cases "m = k")
      case True
      with d k u have "p = Dead i e" by (simp add: s' goto_def)
      with p show ?thesis by blast
    next
      case False
      with d m u have "pc (workers s ! m) = Dead i e" "m < length (workers s)"
        by (simp_all add: s' goto_def)
      with assms(3) show ?thesis unfolding dead_inv_def by blast
    qed
  qed
qed

lemma dead_inv_reachable:
  "reachable w n start stop s \<Longrightarrow> dead_inv w s"
proof (induction rule: reachable.induct)
  case reach_init
  show ?case by (simp add: dead_inv_def init_pool_def)
next
  case (reach_step s t s')
  then show ?case using dead_inv_step counter_inv_reachable by blast
qed

lemma sum_list_update_nat:
  "k < length xs \<Longrightarrow>
     sum_list (map f (xs[k := y])) + f (xs ! k) = sum_list (map f xs) + (f y :: nat)"
proof (induction xs arbitrary: k)
  case Nil
  then show ?case by simp
next
  case (Cons x xs)
  then show ?case by (cases k) auto
qed

lemma weight_goto:
  assumes "k < length (workers s)"
  shows "sum_list (map (\<lambda>x. weight (pc x)) (workers (goto k p s))) + weight (pc (workers s ! k))
           = sum_list (map (\<lambda>x. weight (pc x)) (workers s)) + weight p"
  using sum_list_update_nat[OF assms, of "\<lambda>x. weight (pc x)" "(workers s ! k)\<lparr>pc := p\<rparr>"]
  by (simp add: goto_def)

lemma held_items_differ:
  assumes r: "reachable w n start stop s"
    and m: "m < length (workers s)" and k: "k < length (workers s)" and mk: "m \<noteq> k"
    and hm: "i \<in> set (holding (pc (workers s ! m)))"
    and hk: "K \<in> set (holding (pc (workers s ! k)))"
  shows "i \<noteq> K"
proof
  assume eq: "i = K"
  have inv: "mset (map snd (claims s)) + (mset (queue s) + mset (pending (main s)))
               = mset [start..stop - 1]"
    using items_inv_reachable[OF r] by (simp add: items_inv_def add.assoc)
  have d: "distinct (map snd (claims s))"
    using distinct_submset[OF inv] by simp
  have c: "\<forall>j < length (workers s). \<forall>x \<in> set (holding (pc (workers s ! j))).
              (j, x) \<in> set (claims s)"
    using work_inv_reachable[OF r] unfolding work_inv_def by blast
  from c m hm have "(m, K) \<in> set (claims s)" using eq by blast
  moreover from c k hk have "(k, K) \<in> set (claims s)" by blast
  ultimately have "m = k"
    using d by (metis eq_key_imp_eq_value distinct_map snd_conv inj_onD prod.inject)
  with mk show False by simp
qed


lemma held_in_range:
  assumes r: "reachable w n start stop s"
    and m: "m < length (workers s)" and h: "i \<in> set (holding (pc (workers s ! m)))"
  shows "start \<le> i \<and> i < stop"
proof -
  have "(m, i) \<in> set (claims s)"
    using work_inv_reachable[OF r] m h unfolding work_inv_def by blast
  then have "i \<in> set (map snd (claims s))" by force
  then have "i \<in># mset (map snd (claims s)) + mset (queue s) + mset (pending (main s))"
    by simp
  moreover have "mset (map snd (claims s)) + mset (queue s) + mset (pending (main s))
      = mset [start..stop - 1]"
    using items_inv_reachable[OF r] unfolding items_inv_def .
  ultimately have "i \<in># mset [start..stop - 1]" by metis
  then show ?thesis by simp
qed

text \<open>
  After a worker has been ended by item \<open>K\<close>, as long as another worker is alive and no
  other item raises, some thread can take a step that brings the batch nearer to its end.
\<close>

lemma progress:
  assumes r: "reachable w n start stop s"
    and k: "k < length (workers s)" and dk: "pc (workers s ! k) = Dead K e"
    and j: "j < length (workers s)" and aj: "alive (pc (workers s ! j))"
    and ok: "\<forall>i. start \<le> i \<and> i < stop \<and> i \<noteq> K \<longrightarrow> (\<exists>eff. download_one w i = Inr eff)"
    and nq: "\<not> quiescent s"
  shows "\<exists>t s1. step w n t s = Some s1 \<and> remaining_work s1 < remaining_work s \<and>
           k < length (workers s1) \<and> pc (workers s1 ! k) = Dead K e \<and>
           j < length (workers s1) \<and> alive (pc (workers s1 ! j))"
proof -
  have jk: "j \<noteq> k" using aj dk by auto
  have moved: ?thesis
    if m: "m < length (workers s)" and st: "step_worker w m s = Some (goto m p u)"
      and u: "workers u = workers s" "main u = main s"
      and p: "alive p"
      and less: "4 * length (queue u) + weight p < 4 * length (queue s) + weight (pc (workers s ! m))"
    for m p u
  proof -
    have mk: "m \<noteq> k" using st dk m by (auto simp: step_worker_def)
    have mu: "m < length (workers u)" using m u by simp
    have "sum_list (map (\<lambda>x. weight (pc x)) (workers (goto m p u))) + weight (pc (workers s ! m))
           = sum_list (map (\<lambda>x. weight (pc x)) (workers s)) + weight p"
      using weight_goto[OF mu, of p] u by simp
    with less u have "remaining_work (goto m p u) < remaining_work s"
      by (simp add: remaining_work_def goto_def)
    moreover have "pc (workers (goto m p u) ! k) = Dead K e"
      using mk dk u by (simp add: goto_def)
    moreover have "alive (pc (workers (goto m p u) ! j))"
      using aj u p j by (cases "j = m") (simp_all add: goto_def)
    moreover have "step w n (Worker m) s = Some (goto m p u)" using st by simp
    ultimately show ?thesis using k j u by (intro exI[of _ "Worker m"] exI[of _ "goto m p u"]) (simp add: goto_def)
  qed
  show ?thesis
  proof (cases "pending (main s)")
    case (Cons i js)
    then have ms: "main s = MPut (i # js)" by (cases "main s") simp_all
    let ?s1 = "s\<lparr>queue := queue s @ [i], unfinished := Suc (unfinished s), main := MPut js\<rparr>"
    have "step w n MainThread s = Some ?s1" using ms by (simp add: step_main_def)
    moreover have "remaining_work ?s1 < remaining_work s"
      using ms by (simp add: remaining_work_def)
    ultimately show ?thesis using k dk j aj
      by (intro exI[of _ MainThread] exI[of _ ?s1]) simp
  next
    case Nil
    show ?thesis
    proof (cases "\<exists>m < length (workers s). busy (pc (workers s ! m))")
      case True
      then obtain m where m: "m < length (workers s)" and b: "busy (pc (workers s ! m))" by blast
      show ?thesis
      proof (cases "pc (workers s ! m)")
        case (AtTaskDone i)
        have "0 < length (filter (\<lambda>x. at_task_done (pc x)) (workers s))"
          using atd_positive[OF m, of "\<lambda>x. at_task_done (pc x)"] AtTaskDone by simp
        with counter_inv_reachable[OF r] have pos: "0 < unfinished s"
          by (simp add: counter_inv_def)
        show ?thesis
          by (rule moved[OF m, of "Processing i" "s\<lparr>unfinished := unfinished s - 1\<rparr>"])
             (use m pos AtTaskDone in \<open>simp_all add: step_worker_def\<close>)
      next
        case (Processing i)
        have mk: "m \<noteq> k" using Processing dk by auto
        have "i \<noteq> K"
          using held_items_differ[OF r m k mk, of i K] Processing dk by simp
        moreover have "start \<le> i \<and> i < stop"
          using held_in_range[OF r m, of i] Processing by simp
        ultimately obtain eff where eff: "download_one w i = Inr eff" using ok by blast
        show ?thesis
          by (rule moved[OF m, of CheckEmpty "s\<lparr>completed := completed s @ [(m, i, eff)]\<rparr>"])
             (use m eff Processing in \<open>simp_all add: step_worker_def\<close>)
      qed (use b in simp_all)
    next
      case False
      with nq Nil have q: "queue s \<noteq> []" by (auto simp: quiescent_def)
      from False j have nb: "\<not> busy (pc (workers s ! j))" by blast
      have run: "running (workers s ! j)"
        using never_stopped_reachable[OF r] j by (simp add: never_stopped_def)
      show ?thesis
      proof (cases "pc (workers s ! j)")
        case RunLoop
        show ?thesis
          by (rule moved[OF j, of CheckEmpty s])
             (use j run RunLoop in \<open>simp_all add: step_worker_def\<close>)
      next
        case CheckEmpty
        show ?thesis
          by (rule moved[OF j, of AtGet s])
             (use j q CheckEmpty in \<open>simp_all add: step_worker_def\<close>)
      next
        case AtGet
        from q obtain i rest where qq: "queue s = i # rest" by (cases "queue s") auto
        show ?thesis
          by (rule moved[OF j, of "AtTaskDone i" "s\<lparr>queue := rest, claims := claims s @ [(j, i)]\<rparr>"])
             (use j qq AtGet in \<open>simp_all add: step_worker_def\<close>)
      qed (use nb aj in simp_all)
    qed
  qed
qed

text \<open>
  When nothing is left to do, every item other than \<open>K\<close> has been processed; and the
  surviving worker can always get the batch there.
\<close>

lemma in_held:
  "i \<in> set (held s) \<longleftrightarrow> (\<exists>m < length (workers s). i \<in> set (holding (pc (workers s ! m))))"
proof -
  have "i \<in> set (held s) \<longleftrightarrow> (\<exists>x \<in> set (workers s). i \<in> set (holding (pc x)))"
    by (simp add: held_def)
  also have "\<dots> \<longleftrightarrow> (\<exists>m < length (workers s). i \<in> set (holding (pc (workers s ! m))))"
    by (metis in_set_conv_nth)
  finally show ?thesis .
qed

lemma quiescent_all_processed:
  assumes r: "reachable w n start stop s" and q: "quiescent s"
    and ok: "\<forall>i. start \<le> i \<and> i < stop \<and> i \<noteq> K \<longrightarrow> (\<exists>eff. download_one w i = Inr eff)"
    and i: "start \<le> i" "i < stop" "i \<noteq> K"
  shows "i \<in> processed s"
proof -
  have "mset (map snd (claims s)) = mset [start..stop - 1]"
    using items_inv_reachable[OF r] q by (simp add: items_inv_def quiescent_def)
  then have "set (map snd (claims s)) = set [start..stop - 1]" by (rule mset_eq_setD)
  with i have "i \<in> set (map snd (claims s))" by simp
  moreover have "mset (map snd (claims s))
      = mset (map (\<lambda>(k, i, e). i) (completed s)) + mset (held s)"
    using work_inv_reachable[OF r] unfolding work_inv_def by blast
  ultimately have "i \<in># mset (map (\<lambda>(k, i, e). i) (completed s)) + mset (held s)"
    by (metis set_mset_mset)
  then have "i \<in> set (map (\<lambda>(k, i, e). i) (completed s)) \<or> i \<in> set (held s)"
    by simp
  moreover have "i \<notin> set (held s)"
  proof
    assume "i \<in> set (held s)"
    then obtain m where m: "m < length (workers s)"
      and h: "i \<in> set (holding (pc (workers s ! m)))"
      using in_held by blast
    from q m have nb: "\<not> busy (pc (workers s ! m))" by (simp add: quiescent_def)
    from h nb obtain e where "pc (workers s ! m) = Dead i e"
      by (cases "pc (workers s ! m)") simp_all
    with dead_inv_reachable[OF r] m have "download_one w i = Inl e"
      unfolding dead_inv_def by blast
    with ok i show False by auto
  qed
  ultimately show ?thesis by (simp add: processed_def)
qed

lemma survivor_drains:
  assumes "reachable w n start stop s"
    and "k < length (workers s)" and "pc (workers s ! k) = Dead K e"
    and "j < length (workers s)" and "alive (pc (workers s ! j))"
    and ok: "\<forall>i. start \<le> i \<and> i < stop \<and> i \<noteq> K \<longrightarrow> (\<exists>eff. download_one w i = Inr eff)"
  shows "\<exists>ts s'. exec w n ts s = Some s' \<and> reachable w n start stop s' \<and> quiescent s'"
  using assms(1-5)
proof (induction "remaining_work s" arbitrary: s rule: less_induct)
  case less
  show ?case
  proof (cases "quiescent s")
    case True
    with less.prems(1) have "exec w n [] s = Some s \<and> reachable w n start stop s \<and> quiescent s"
      by simp
    then show ?thesis by blast
  next
    case False
    from progress[OF less.prems ok False] obtain t s1 where
      st: "step w n t s = Some s1" and lt: "remaining_work s1 < remaining_work s"
      and c: "k < length (workers s1)" "pc (workers s1 ! k) = Dead K e"
         "j < length (workers s1)" "alive (pc (workers s1 ! j))"
      by blast
    have r1: "reachable w n start stop s1"
      using less.prems(1) st by (rule reach_step)
    from less.hyps[OF lt r1 c] obtain ts s' where
      "exec w n ts s1 = Some s'" "reachable w n start stop s'" "quiescent s'" by blast
    with st have "exec w n (t # ts) s = Some s' \<and> reachable w n start stop s' \<and> quiescent s'"
      by simp
    then show ?thesis by blast
  qed
qed


text \<open>
  Whatever the threads do after the failure, the worker that item \<open>K\<close> ended stays ended
  and the surviving worker stays alive.
\<close>

lemma survivor_step:
  assumes r: "reachable w n start stop s"
    and k: "k < length (workers s)" and dk: "pc (workers s ! k) = Dead K e"
    and j: "j < length (workers s)" and aj: "alive (pc (workers s ! j))"
    and ok: "\<forall>i. start \<le> i \<and> i < stop \<and> i \<noteq> K \<longrightarrow> (\<exists>eff. download_one w i = Inr eff)"
    and st: "step w n t s = Some s1"
  shows "k < length (workers s1) \<and> pc (workers s1 ! k) = Dead K e \<and>
         j < length (workers s1) \<and> alive (pc (workers s1 ! j))"
proof (cases t)
  case MainThread
  with st k dk j aj show ?thesis
    by (auto simp: step_main_def nth_append split: main_pc.splits list.splits if_splits)
next
  case (Worker m)
  with st have sw: "step_worker w m s = Some s1" by simp
  then have m: "m < length (workers s)"
    by (auto simp: step_worker_def split: if_splits)
  have mk: "m \<noteq> k" using sw dk m by (auto simp: step_worker_def)
  have run: "running (workers s ! m)"
    using never_stopped_reachable[OF r] m by (simp add: never_stopped_def)
  have pos: "0 < unfinished s" if "pc (workers s ! m) = AtTaskDone i" for i
  proof -
    have "0 < length (filter (\<lambda>x. at_task_done (pc x)) (workers s))"
      using atd_positive[OF m, of "\<lambda>x. at_task_done (pc x)"] that by simp
    with counter_inv_reachable[OF r] show ?thesis by (simp add: counter_inv_def)
  qed
  have proc: "\<exists>eff. download_one w i = Inr eff" if p: "pc (workers s ! m) = Processing i" for i
  proof -
    have "i \<noteq> K" using held_items_differ[OF r m k mk, of i K] p dk by simp
    moreover have "start \<le> i \<and> i < stop" using held_in_range[OF r m, of i] p by simp
    ultimately show ?thesis using ok by blast
  qed
  have mv: "\<exists>p u. s1 = goto m p u \<and> workers u = workers s \<and> alive p"
    if "s1 = goto m p u" "workers u = workers s" "alive p" for p u
    using that by blast
  have "\<exists>p u. s1 = goto m p u \<and> workers u = workers s \<and> alive p"
  proof (cases "pc (workers s ! m)")
    case RunLoop
    with sw m run have "s1 = goto m CheckEmpty s" by (simp add: step_worker_def)
    then show ?thesis by (rule mv) simp_all
  next
    case CheckEmpty
    with sw m have "s1 = goto m (if queue s = [] then RunLoop else AtGet) s"
      by (simp add: step_worker_def)
    then show ?thesis by (rule mv) simp_all
  next
    case AtGet
    with sw m obtain i rest where
      "s1 = goto m (AtTaskDone i) (s\<lparr>queue := rest, claims := claims s @ [(m, i)]\<rparr>)"
      by (auto simp: step_worker_def split: list.splits)
    then show ?thesis by (rule mv) simp_all
  next
    case (AtTaskDone i)
    with sw m pos[OF AtTaskDone]
    have "s1 = goto m (Processing i) (s\<lparr>unfinished := unfinished s - 1\<rparr>)"
      by (simp add: step_worker_def)
    then show ?thesis by (rule mv) simp_all
  next
    case (Processing i)
    from proc[OF Processing] obtain eff where "download_one w i = Inr eff" by blast
    with sw m Processing
    have "s1 = goto m CheckEmpty (s\<lparr>completed := completed s @ [(m, i, eff)]\<rparr>)"
      by (simp add: step_worker_def)
    then show ?thesis by (rule mv) simp_all
  next
    case (Dead i e')
    with sw m show ?thesis by (simp add: step_worker_def)
  next
    case Terminated
    with sw m show ?thesis by (simp add: step_worker_def)
  qed
  then obtain p u where s1: "s1 = goto m p u" and u: "workers u = workers s" and p: "alive p"
    by blast
  have "pc (workers s1 ! k) = Dead K e" using mk dk u by (simp add: s1 goto_def)
  moreover have "alive (pc (workers s1 ! j))"
    using aj u p j by (cases "j = m") (simp_all add: s1 goto_def)
  ultimately show ?thesis using k j u by (simp add: s1 goto_def)
qed

lemma survivor_exec:
  assumes ok: "\<forall>i. start \<le> i \<and> i < stop \<and> i \<noteq> K \<longrightarrow> (\<exists>eff. download_one w i = Inr eff)"
  shows "exec w n us s = Some s1 \<Longrightarrow> reachable w n start stop s \<Longrightarrow>
     k < length (workers s) \<Longrightarrow> pc (workers s ! k) = Dead K e \<Longrightarrow>
     j < length (workers s) \<Longrightarrow> alive (pc (workers s ! j)) \<Longrightarrow>
     reachable w n start stop s1 \<and>
     k < length (workers s1) \<and> pc (workers s1 ! k) = Dead K e \<and>
     j < length (workers s1) \<and> alive (pc (workers s1 ! j))"
proof (induction us arbitrary: s)
  case Nil
  then show ?case by simp
next
  case (Cons t us)
  from Cons.prems(1) obtain s2 where st: "step w n t s = Some s2"
    and ex: "exec w n us s2 = Some s1"
    by (auto split: option.splits)
  have r2: "reachable w n start stop s2" using Cons.prems(2) st by (rule reach_step)
  from survivor_step[OF Cons.prems(2-6) ok st]
  have c: "k < length (workers s2)" "pc (workers s2 ! k) = Dead K e"
      "j < length (workers s2)" "alive (pc (workers s2 ! j))" by simp_all
  from Cons.IH[OF ex r2 c] show ?case .
qed

text \<open>
  Claim C3, as the code has it. When the loop body raises while worker \<open>k\<close> handles item
  \<open>K\<close>, the step ends that thread and changes nothing else: the queue, its counter, the
  main thread, the logs and every other worker are as before, and every schedule of the
  other threads runs exactly as it would have run, step for step, with the same results.
  And if another worker is alive and no other item of the batch raises, the failure
  never keeps an item other than \<open>K\<close> from being processed: whatever the threads have done
  since the failure, they can run on from there until every item other than \<open>K\<close> has
  been processed.
\<close>

theorem worker_failure_confined:
  assumes "k < length (workers s)" and "pc (workers s ! k) = Processing K"
  shows "download_one w K = Inl e \<longrightarrow>
            step w n (Worker k) s = Some (goto k (Dead K e) s) \<and>
            queue (goto k (Dead K e) s) = queue s \<and>
            unfinished (goto k (Dead K e) s) = unfinished s \<and>
            main (goto k (Dead K e) s) = main s \<and>
            completed (goto k (Dead K e) s) = completed s \<and>
            (\<forall>j. j \<noteq> k \<longrightarrow> workers (goto k (Dead K e) s) ! j = workers s ! j) \<and>
            (\<forall>ts. Worker k \<notin> set ts \<longrightarrow>
               exec w n ts (goto k (Dead K e) s)
                 = map_option (goto k (Dead K e)) (exec w n ts s)) \<and>
            (reachable w n start stop s \<and>
             (\<exists>j < length (workers s). j \<noteq> k \<and> alive (pc (workers s ! j))) \<and>
             (\<forall>i. start \<le> i \<and> i < stop \<and> i \<noteq> K \<longrightarrow> (\<exists>eff. download_one w i = Inr eff))
             \<longrightarrow> (\<forall>us s1. exec w n us (goto k (Dead K e) s) = Some s1 \<longrightarrow>
                    (\<exists>ts s'. exec w n ts s1 = Some s' \<and>
                       (\<forall>i. start \<le> i \<and> i < stop \<and> i \<noteq> K \<longrightarrow> i \<in> processed s'))))"
proof
  assume f: "download_one w K = Inl e"
  let ?d = "goto k (Dead K e) s"
  have own: "step w n (Worker k) s = Some ?d"
    using assms f by (simp add: step_worker_def)
  have live: "\<exists>ts s'. exec w n ts s1 = Some s' \<and>
                (\<forall>i. start \<le> i \<and> i < stop \<and> i \<noteq> K \<longrightarrow> i \<in> processed s')"
    if r: "reachable w n start stop s"
      and sv: "\<exists>j < length (workers s). j \<noteq> k \<and> alive (pc (workers s ! j))"
      and ok: "\<forall>i. start \<le> i \<and> i < stop \<and> i \<noteq> K \<longrightarrow> (\<exists>eff. download_one w i = Inr eff)"
      and us: "exec w n us ?d = Some s1"
    for us s1
  proof -
    from sv obtain j where j: "j < length (workers s)" "j \<noteq> k" "alive (pc (workers s ! j))"
      by blast
    have rd: "reachable w n start stop ?d" using r own by (rule reach_step)
    have kd: "k < length (workers ?d)" "pc (workers ?d ! k) = Dead K e"
      using assms(1) by (simp_all add: goto_def)
    have jd: "j < length (workers ?d)" "alive (pc (workers ?d ! j))"
      using j by (simp_all add: goto_def)
    from survivor_exec[OF ok us rd kd jd]
    have r1: "reachable w n start stop s1"
      and c: "k < length (workers s1)" "pc (workers s1 ! k) = Dead K e"
        "j < length (workers s1)" "alive (pc (workers s1 ! j))" by simp_all
    from survivor_drains[OF r1 c ok] obtain ts s' where
      e: "exec w n ts s1 = Some s'" and r': "reachable w n start stop s'" and q: "quiescent s'"
      by blast
    have "\<forall>i. start \<le> i \<and> i < stop \<and> i \<noteq> K \<longrightarrow> i \<in> processed s'"
      using quiescent_all_processed[OF r' q ok] by blast
    with e show ?thesis by blast
  qed
  have conf: "step w n (Worker k) s = Some ?d \<and>
            queue ?d = queue s \<and>
            unfinished ?d = unfinished s \<and>
            main ?d = main s \<and>
            completed ?d = completed s \<and>
            (\<forall>j. j \<noteq> k \<longrightarrow> workers ?d ! j = workers s ! j) \<and>
            (\<forall>ts. Worker k \<notin> set ts \<longrightarrow>
               exec w n ts ?d = map_option (goto k (Dead K e)) (exec w n ts s))"
    using own exec_after_death[OF assms(1)] by (simp add: goto_other)
  from conf live
  show "step w n (Worker k) s = Some ?d \<and>
            queue ?d = queue s \<and>
            unfinished ?d = unfinished s \<and>
            main ?d = main s \<and>
            completed ?d = completed s \<and>
            (\<forall>j. j \<noteq> k \<longrightarrow> workers ?d ! j = workers s ! j) \<and>
            (\<forall>ts. Worker k \<notin> set ts \<longrightarrow>
               exec w n ts ?d = map_option (goto k (Dead K e)) (exec w n ts s)) \<and>
            (reachable w n start stop s \<and>
             (\<exists>j < length (workers s). j \<noteq> k \<and> alive (pc (workers s ! j))) \<and>
             (\<forall>i. start \<le> i \<and> i < stop \<and> i \<noteq> K \<longrightarrow> (\<exists>eff. download_one w i = Inr eff))
             \<longrightarrow> (\<forall>us s1. exec w n us ?d = Some s1 \<longrightarrow>
                    (\<exists>ts s'. exec w n ts s1 = Some s' \<and>
                       (\<forall>i. start \<le> i \<and> i < stop \<and> i \<noteq> K \<longrightarrow> i \<in> processed s'))))"
    by blast
qed

text \<open>
  Two workers in the loop body, a third item queued, the request for page 0 raising:
  worker 0 ends; worker 1 finishes item 1, takes item 2 and finishes it, and the main
  thread gets past \<open>q.join()\<close>. The state is one that a run of
  \<open>download_xkcd_threaded(2, 0, 3)\<close> reaches.
\<close>

theorem worker_failure_confined_witness:
  "step web_first_fails 2 (Worker 0) two_busy = Some (goto 0 (Dead 0 HTTPError) two_busy) \<and>
   exec web_first_fails 2 [Worker 1, Worker 1, Worker 1, Worker 1, Worker 1, MainThread]
     (goto 0 (Dead 0 HTTPError) two_busy)
   = Some \<lparr>queue = [], unfinished = 0, main = MDel, threads = [0, 1],
            workers = [\<lparr>running = True, pc = Dead 0 HTTPError\<rparr>,
                       \<lparr>running = True, pc = CheckEmpty\<rparr>],
            claims = [(0, 0), (1, 1), (1, 2)],
            completed = [(1, 1, NoEffect), (1, 2, NoEffect)]\<rparr> \<and>
   (\<exists>ts s'. exec web_first_fails 2 ts (goto 0 (Dead 0 HTTPError) two_busy) = Some s' \<and>
      1 \<in> processed s' \<and> 2 \<in> processed s')"
proof -
  let ?ts = "[Worker 1, Worker 1, Worker 1, Worker 1, Worker 1, MainThread]"
  let ?d = "goto 0 (Dead 0 HTTPError) two_busy"
  have k0: "0 < length (workers two_busy)"
    by (simp add: two_busy_def)
  have p0: "pc (workers two_busy ! 0) = Processing 0"
    by (simp add: two_busy_def)
  have f: "download_one web_first_fails 0 = Inl HTTPError"
    by (simp add: download_one_def web_first_fails_def)
  have "exec web_first_fails 2
          [MainThread, MainThread, MainThread, MainThread, MainThread, MainThread, MainThread,
           Worker 0, Worker 0, Worker 0, Worker 0, Worker 1, Worker 1, Worker 1, Worker 1]
          (init_pool 0 3) = Some two_busy"
    by code_simp
  then have r: "reachable web_first_fails 2 0 3 two_busy"
    using exec_reachable reach_init by blast
  have sv: "\<exists>j < length (workers two_busy). j \<noteq> 0 \<and> alive (pc (workers two_busy ! j))"
    by (intro exI[of _ 1]) (simp add: two_busy_def)
  have ok: "\<forall>i. 0 \<le> i \<and> i < 3 \<and> i \<noteq> 0 \<longrightarrow> (\<exists>eff. download_one web_first_fails i = Inr eff)"
    by (simp add: download_one_eq web_first_fails_def)
  note t = worker_failure_confined[OF k0 p0, of web_first_fails HTTPError 2 0 3]
  from t f have a: "step web_first_fails 2 (Worker 0) two_busy = Some ?d"
    by blast
  from t f have "\<forall>ts. Worker 0 \<notin> set ts \<longrightarrow>
        exec web_first_fails 2 ts ?d = map_option (goto 0 (Dead 0 HTTPError)) (exec web_first_fails 2 ts two_busy)"
    by blast
  moreover have "Worker 0 \<notin> set ?ts" by simp
  ultimately have "exec web_first_fails 2 ?ts ?d
          = map_option (goto 0 (Dead 0 HTTPError)) (exec web_first_fails 2 ?ts two_busy)"
    by blast
  also have "\<dots> = Some \<lparr>queue = [], unfinished = 0, main = MDel, threads = [0, 1],
            workers = [\<lparr>running = True, pc = Dead 0 HTTPError\<rparr>,
                       \<lparr>running = True, pc = CheckEmpty\<rparr>],
            claims = [(0, 0), (1, 1), (1, 2)],
            completed = [(1, 1, NoEffect), (1, 2, NoEffect)]\<rparr>"
    by code_simp
  finally have e: "exec web_first_fails 2 ?ts ?d
     = Some \<lparr>queue = [], unfinished = 0, main = MDel, threads = [0, 1],
            workers = [\<lparr>running = True, pc = Dead 0 HTTPError\<rparr>,
                       \<lparr>running = True, pc = CheckEmpty\<rparr>],
            claims = [(0, 0), (1, 1), (1, 2)],
            completed = [(1, 1, NoEffect), (1, 2, NoEffect)]\<rparr>" .
  have "exec web_first_fails 2 [] ?d = Some ?d" by simp
  with t f r sv ok obtain ts s' where x: "exec web_first_fails 2 ts ?d = Some s'"
    and all: "\<forall>i. 0 \<le> i \<and> i < 3 \<and> i \<noteq> 0 \<longrightarrow> i \<in> processed s'"
    by blast
  from all have "1 \<in> processed s'" "2 \<in> processed s'" by simp_all
  with x have l: "\<exists>ts s'. exec web_first_fails 2 ts ?d = Some s' \<and>
      1 \<in> processed s' \<and> 2 \<in> processed s'" by blast
  from a e l show ?thesis by blast
qed

text \<open>
  Claim C3 as stated fails. One worker, the items 0 and 1, the request for page 0
  raising: the only worker ends, item 1 stays in the queue, the main thread waits at
  \<open>q.join()\<close>, and no thread can move any more. Item 1 is never processed.
\<close>

theorem failure_starves_remaining_item:
  "exec web_first_fails 1
     [MainThread, MainThread, MainThread, MainThread, MainThread,
      Worker 0, Worker 0, Worker 0, Worker 0, Worker 0]
     (init_pool 0 2)
   = Some \<lparr>queue = [1], unfinished = 1, main = MJoin, threads = [0],
            workers = [\<lparr>running = True, pc = Dead 0 HTTPError\<rparr>],
            claims = [(0, 0)], completed = []\<rparr> \<and>
   step web_first_fails 1 MainThread
     \<lparr>queue = [1], unfinished = 1, main = MJoin, threads = [0],
      workers = [\<lparr>running = True, pc = Dead 0 HTTPError\<rparr>],
      claims = [(0, 0)], completed = []\<rparr> = None \<and>
   step web_first_fails 1 (Worker 0)
     \<lparr>queue = [1], unfinished = 1, main = MJoin, threads = [0],
      workers = [\<lparr>running = True, pc = Dead 0 HTTPError\<rparr>],
      claims = [(0, 0)], completed = []\<rparr> = None"
  by code_simp

text \<open>
  Claim C9. Item 7, whose page is "404 Not Found" and holds no comic image. The claim
  asks that the worker report the failure for it. The worker searches what \<open>rd.read()\<close>
  returns, which is the empty string, so neither search matches: it prints nothing,
  writes nothing, and goes back to the head of its loop. The sequential \<open>download_xkcd\<close>,
  which searches \<open>rd.data\<close>, does find "Not Found" on the same page and clears its flag.
\<close>

theorem not_found_never_reported:
  "download_one web_not_found 7 = Inr NoEffect \<and>
   step web_not_found 1 (Worker 0)
     \<lparr>queue = [8], unfinished = 1, main = MJoin, threads = [0],
      workers = [\<lparr>running = True, pc = Processing 7\<rparr>], claims = [(0, 7)], completed = []\<rparr>
   = Some \<lparr>queue = [8], unfinished = 1, main = MJoin, threads = [0],
      workers = [\<lparr>running = True, pc = CheckEmpty\<rparr>], claims = [(0, 7)],
      completed = [(0, 7, NoEffect)]\<rparr> \<and>
   download_xkcd web_not_found 7 8 =
     (None, \<lparr>content = False, requests = [GetPage 7], files = []\<rparr>)"
  by code_simp

end
